theory Spec2Isabelle
  imports Complex_Main
begin

section \<open>The xbbs build coordinator and worker: data model\<close>

text \<open>
  The development embeds the parts of \<^verbatim>\<open>xbbs/messages.py\<close>,
  \<^verbatim>\<open>xbbs/coordinator/__init__.py\<close> and \<^verbatim>\<open>xbbs/worker/__init__.py\<close> that the
  properties below are about. Python \<^verbatim>\<open>bytes\<close> and \<^verbatim>\<open>str\<close> are both \<open>string\<close>
  (a list of 8-bit characters); a \<^verbatim>\<open>dict\<close> is an association list in insertion order;
  an exception is the \<open>Inl\<close> branch of a sum.
\<close>

type_synonym bytes = string

text \<open>The validator type \<^verbatim>\<open>"number"\<close> admits integers and floats; both are rationals here.\<close>

type_synonym number = rat

text \<open>
  The exceptions. An \<^verbatim>\<open>AttributeError\<close> names the object (its type, or the module) and
  the attribute, a \<^verbatim>\<open>KeyError\<close> the missing key (\<^verbatim>\<open>None\<close> can be one), an \<^verbatim>\<open>OSError\<close>
  the path or the operation, a \<^verbatim>\<open>TypeError\<close> what was wrong with a call, a
  \<^verbatim>\<open>ValidationError\<close> the key whose value was refused.
\<close>

datatype type_error =
    Unexpected_keyword string
  | Missing_arguments "string list"
  | Unhashable string

datatype error =
    AttributeError string string
  | TypeError type_error
  | KeyError "string option"
  | RuntimeError string
  | ValidationError string
  | UnboundLocalError string
  | UnpackException
  | OSError string
  | CalledProcessError "string list"

subsection \<open>Dictionaries\<close>

text \<open>
  \<^verbatim>\<open>d[k] = v\<close>: an existing key keeps its position, a new key goes to the end.
\<close>

fun dict_set :: "('k \<times> 'v) list \<Rightarrow> 'k \<Rightarrow> 'v \<Rightarrow> ('k \<times> 'v) list" where
  "dict_set [] k v = [(k, v)]"
| "dict_set ((k', v') # d) k v =
     (if k' = k then (k, v) # d else (k', v') # dict_set d k v)"

fun dict_del :: "('k \<times> 'v) list \<Rightarrow> 'k \<Rightarrow> ('k \<times> 'v) list" where
  "dict_del [] k = []"
| "dict_del ((k', v') # d) k = (if k' = k then d else (k', v') # dict_del d k)"

definition dict_values :: "('k \<times> 'v) list \<Rightarrow> 'v list" where
  "dict_values d = map snd d"

text \<open>\<^verbatim>\<open>os.path.join\<close> of a directory and a relative name.\<close>

definition path_join :: "string \<Rightarrow> string \<Rightarrow> string" where
  "path_join a b = a @ ''/'' @ b"

subsection \<open>\<^verbatim>\<open>messages.py\<close>: the enumerations\<close>

datatype JobStatus =
    WAITING
  | RUNNING
  | WAITING_FOR_DONE
  | FAILED
  | SUCCESS
  | PREREQUISITE_FAILED
  | UP_TO_DATE
  | IGNORED_FAILURE

definition terminating :: "JobStatus \<Rightarrow> bool" where
  "terminating s = (s \<in> set [FAILED, SUCCESS, IGNORED_FAILURE, UP_TO_DATE])"

definition successful :: "JobStatus \<Rightarrow> bool" where
  "successful s = (s \<in> set [SUCCESS, IGNORED_FAILURE, UP_TO_DATE])"

text \<open>
  \<^verbatim>\<open>class BuildState(Enum)\<close> has seven members; \<open>RUNNING\<close> and \<open>terminating\<close> carry a
  suffix because \<open>JobStatus\<close> uses the names already.
\<close>

datatype BuildState =
    SCHEDULED
  | FETCH
  | SETUP
  | CALCULATING
  | SETUP_REPOS
  | RUNNING_state
  | DONE

definition BuildState_members :: "(string \<times> BuildState) list" where
  "BuildState_members =
     [(''SCHEDULED'', SCHEDULED), (''FETCH'', FETCH), (''SETUP'', SETUP),
      (''CALCULATING'', CALCULATING), (''SETUP_REPOS'', SETUP_REPOS),
      (''RUNNING'', RUNNING_state), (''DONE'', DONE)]"

text \<open>\<^verbatim>\<open>msgs.BuildState.<name>\<close>: attribute access on the enumeration class.\<close>

definition BuildState_getattr :: "string \<Rightarrow> error + BuildState" where
  "BuildState_getattr n =
     (case map_of BuildState_members n of
        None \<Rightarrow> Inl (AttributeError ''BuildState'' n)
      | Some s \<Rightarrow> Inr s)"

definition terminating_state :: "BuildState \<Rightarrow> bool" where
  "terminating_state s = (s \<in> set [DONE])"

subsection \<open>\<^verbatim>\<open>coordinator/__init__.py\<close>: artifacts, jobs, builds, projects\<close>

datatype Kind = TOOL | PACKAGE | FILE

text \<open>
  The \<^verbatim>\<open>architecture\<close> attribute holds \<^verbatim>\<open>None\<close> (files), a string, or, once
  \<^verbatim>\<open>set_graph\<close> has rewritten a \<^verbatim>\<open>"noarch"\<close> entry, a list.
\<close>

datatype arch = ArchNone | ArchStr string | ArchList "arch list"

record artifact =
  kind :: Kind
  name :: string
  version :: "string option"
  architecture :: arch
  received :: bool
  failed :: bool

text \<open>
  \<^verbatim>\<open>received\<close> and \<^verbatim>\<open>failed\<close> are declared \<^verbatim>\<open>eq=False\<close>: the generated \<^verbatim>\<open>__eq__\<close>
  compares the other four attributes.
\<close>

definition artifact_eq :: "artifact \<Rightarrow> artifact \<Rightarrow> bool" where
  "artifact_eq x y =
     (kind x = kind y \<and> name x = name y \<and> version x = version y
      \<and> architecture x = architecture y)"

text \<open>
  Artifacts are shared mutable objects: a job's \<^verbatim>\<open>deps\<close> and \<^verbatim>\<open>products\<close> and the
  build's three name dictionaries hold references. A reference is an address into the
  build's object store \<open>arts\<close>.
\<close>

type_synonym addr = nat

record job =
  unstable :: bool
  deps :: "addr list"
  products :: "addr list"
  capabilities :: "string list"
  status :: JobStatus
  exit_code :: "number option"
  run_time :: "number option"

definition Job :: "bool \<Rightarrow> string list \<Rightarrow> job" where
  "Job u caps =
     \<lparr>unstable = u, deps = [], products = [], capabilities = caps, status = WAITING,
      exit_code = None, run_time = None\<rparr>"

record JobCompletionMessage =
  jc_project :: string
  jc_job :: string
  jc_exit_code :: number
  jc_run_time :: number

text \<open>What \<^verbatim>\<open>store_status\<close> last wrote to the file \<^verbatim>\<open>coordinator\<close> of the build directory.\<close>

record stored_status =
  st_state :: BuildState
  st_jobs :: "(string \<times> JobStatus) list"
  st_success :: "bool option"

record build =
  b_name :: string
  repository :: string
  build_directory :: string
  incremental :: bool
  revision :: "string option"
  state :: BuildState
  jobs :: "(string \<times> job) list"
  success :: bool
  ts :: string
  tool_set :: "(string \<times> addr) list"
  file_set :: "(string \<times> addr) list"
  pkg_set :: "(string \<times> addr) list"
  commits_object :: "(string \<times> (string \<times> string) list) list"
  artifact_received :: bool
  arts :: "artifact list"
  coordfile :: "stored_status option"
  info_files :: "(string \<times> JobCompletionMessage) list"
  deposited :: "(string \<times> bytes) list"

definition store_status :: "bool option \<Rightarrow> build \<Rightarrow> build" where
  "store_status succ b =
     b\<lparr>coordfile :=
         Some \<lparr>st_state = state b,
               st_jobs = map (\<lambda>(n, j). (n, status j)) (jobs b),
               st_success = succ\<rparr>\<rparr>"

definition update_state :: "BuildState \<Rightarrow> build \<Rightarrow> build" where
  "update_state s b = store_status None (b\<lparr>state := s\<rparr>)"

record project =
  p_name :: string
  git :: string
  packages :: string
  tools :: string
  base :: string
  distfile_path :: string
  p_incremental :: bool
  fingerprint :: "string option"
  current :: "build option"
  mirror_root :: "string option"
  default_branch :: string

text \<open>
  The coordinator instance. \<open>chunk_table\<close> is the module-level \<^verbatim>\<open>cmd_chunk.table\<close>;
  \<open>staging\<close> holds what has been written to each open staging file, by descriptor, and
  \<open>next_fd\<close> is the descriptor \<^verbatim>\<open>mkstemp\<close> hands out next; \<open>project_greenlets\<close>
  lists the spawned \<^verbatim>\<open>run_project\<close> calls by their arguments; \<open>logged\<close> is what the
  intake loop has passed to \<^verbatim>\<open>log.exception\<close>.
\<close>

record chunk_store =
  cs_fd :: nat
  cs_path :: string
  cs_hasher :: bytes

record xbbs =
  project_base :: string
  collection_dir :: string
  tmp_dir :: string
  build_root :: string
  intake_address :: string
  projects :: "(string \<times> project) list"
  project_greenlets :: "(string \<times> number \<times> bool option) list"
  chunk_table :: "(bytes \<times> chunk_store) list"
  staging :: "(nat \<times> bytes) list"
  next_fd :: nat
  logged :: "error list"

section \<open>Job completion (\<^verbatim>\<open>cmd_job\<close>)\<close>

text \<open>
  An intake handler returns the exception it raised, if any, and the coordinator as the
  handler left it: a handler may raise after it has changed an object. The handlers start
  from the message that \<^verbatim>\<open>msgpack.loads\<close> produced.

  \<^verbatim>\<open>cmd_job\<close>: an unknown project or a project that is not building returns without
  effect; an unknown job name is the \<^verbatim>\<open>KeyError\<close> of \<^verbatim>\<open>proj.current.jobs[message.job]\<close>.
  The job is a shared object, so the three assignments stay when a later statement
  raises. The parameter \<open>open_ok\<close> says which paths \<^verbatim>\<open>open(path, "w")\<close> can create.
  The handler opens two files: the job's \<^verbatim>\<open>.info\<close> file, whose path has the name of the
  job in it (a job name with a \<^verbatim>\<open>/\<close> names a directory that nobody made), and, in
  \<^verbatim>\<open>store_status\<close>, the file \<^verbatim>\<open>coordinator\<close> of the build directory. When the first
  \<^verbatim>\<open>open\<close> raises, \<^verbatim>\<open>store_status\<close> is not reached; when either raises,
  \<^verbatim>\<open>artifact_received.set()\<close> is not reached.
\<close>

definition complete_job :: "JobCompletionMessage \<Rightarrow> job \<Rightarrow> job" where
  "complete_job m j =
     j\<lparr>status := (if jc_exit_code m = 0 then SUCCESS
                   else if unstable j then IGNORED_FAILURE else FAILED),
       exit_code := Some (jc_exit_code m),
       run_time := Some (jc_run_time m)\<rparr>"

definition set_current :: "xbbs \<Rightarrow> string \<Rightarrow> project \<Rightarrow> build \<Rightarrow> xbbs" where
  "set_current inst n proj cur =
     inst\<lparr>projects := dict_set (projects inst) n (proj\<lparr>current := Some cur\<rparr>)\<rparr>"

text \<open>
  \<^verbatim>\<open>Build.info(job)\<close>, the path of the job's \<^verbatim>\<open>.info\<close> file, and the path that
  \<^verbatim>\<open>store_status\<close> writes to.
\<close>

definition info :: "build \<Rightarrow> string \<Rightarrow> string" where
  "info b job = path_join (build_directory b) (job @ ''.info'')"

definition coordfile_path :: "build \<Rightarrow> string" where
  "coordfile_path b = path_join (build_directory b) ''coordinator''"

definition cmd_job ::
  "(string \<Rightarrow> bool) \<Rightarrow> xbbs \<Rightarrow> JobCompletionMessage \<Rightarrow> error option \<times> xbbs" where
  "cmd_job open_ok inst m =
     (case map_of (projects inst) (jc_project m) of
        None \<Rightarrow> (None, inst)
      | Some proj \<Rightarrow>
          (case current proj of
             None \<Rightarrow> (None, inst)
           | Some cur \<Rightarrow>
               (case map_of (jobs cur) (jc_job m) of
                  None \<Rightarrow> (Some (KeyError (Some (jc_job m))), inst)
                | Some j \<Rightarrow>
                    (let cur1 = cur\<lparr>jobs := dict_set (jobs cur) (jc_job m) (complete_job m j)\<rparr>
                     in if \<not> open_ok (info cur1 (jc_job m))
                        then (Some (OSError (info cur1 (jc_job m))),
                              set_current inst (jc_project m) proj cur1)
                        else
                          (let cur2 = cur1\<lparr>info_files := dict_set (info_files cur1) (jc_job m) m\<rparr>
                           in if \<not> terminating_state (state cur2) \<and> \<not> open_ok (coordfile_path cur2)
                              then (Some (OSError (coordfile_path cur2)),
                                    set_current inst (jc_project m) proj cur2)
                              else
                                (let cur3 = (if \<not> terminating_state (state cur2)
                                             then store_status None cur2 else cur2);
                                     cur4 = cur3\<lparr>artifact_received := True\<rparr>
                                 in (None, set_current inst (jc_project m) proj cur4)))))))"

text \<open>The job of a project's current build, by project and job name.\<close>

definition current_job :: "xbbs \<Rightarrow> string \<Rightarrow> string \<Rightarrow> job option" where
  "current_job inst p n =
     (case map_of (projects inst) p of
        None \<Rightarrow> None
      | Some proj \<Rightarrow>
          (case current proj of None \<Rightarrow> None | Some cur \<Rightarrow> map_of (jobs cur) n))"

lemma map_of_dict_set:
  "map_of (dict_set d k v) k' = (if k' = k then Some v else map_of d k')"
  by (induction d k v rule: dict_set.induct) auto

lemma map_fst_dict_set_known:
  "map_of d k = Some w \<Longrightarrow> map fst (dict_set d k v) = map fst d"
  by (induction d k v rule: dict_set.induct) (auto split: if_splits)


section \<open>Chunked artifact streams\<close>

subsection \<open>\<^verbatim>\<open>messages.py\<close>: chunk and artifact messages\<close>

record ChunkMessage =
  last_hash :: bytes
  data :: bytes

definition is_blake2b_digest :: "bytes \<Rightarrow> bool" where
  "is_blake2b_digest x = (length x = 64)"

definition last_hash_validator :: "bytes \<Rightarrow> bool" where
  "last_hash_validator x = (if x = ''initial'' then True else is_blake2b_digest x)"

text \<open>
  \<^verbatim>\<open>msgpack\<close> and \<^verbatim>\<open>hashlib.blake2b\<close> are libraries: the functions below take
  \<open>dumps\<close> (a chunk message to its bytes), \<open>loads\<close> (bytes to a chunk message, \<open>None\<close>
  when the bytes do not decode to a mapping with exactly the two byte-string fields) and
  the one-shot digest \<open>H\<close> as parameters. A hasher object is the bytes it has absorbed;
  its digest is \<open>H\<close> of them.
\<close>

definition ChunkMessage_unpack ::
  "(bytes \<Rightarrow> ChunkMessage option) \<Rightarrow> bytes \<Rightarrow> error + ChunkMessage" where
  "ChunkMessage_unpack loads v =
     (case loads v of
        None \<Rightarrow> Inl UnpackException
      | Some c \<Rightarrow>
          if last_hash_validator (last_hash c) then Inr c
          else Inl (ValidationError ''last_hash''))"

record ArtifactMessage =
  am_project :: string
  artifact_type :: string
  artifact :: string
  am_success :: bool
  filename :: "string option"
  am_last_hash :: "bytes option"

text \<open>
  The validator of \<^verbatim>\<open>ArtifactMessage\<close>: \<^verbatim>\<open>artifact_type\<close> is one of three strings, and
  \<^verbatim>\<open>last_hash\<close>, optional and nullable, is otherwise a BLAKE2b digest. An absent field
  and a null one both give the attribute \<^verbatim>\<open>None\<close>.
\<close>

definition ArtifactMessage_unpack :: "ArtifactMessage \<Rightarrow> error + ArtifactMessage" where
  "ArtifactMessage_unpack x =
     (if artifact_type x \<notin> set [''tool'', ''package'', ''file'']
      then Inl (ValidationError ''artifact_type'')
      else (case am_last_hash x of
              None \<Rightarrow> Inr x
            | Some h \<Rightarrow>
                if is_blake2b_digest h then Inr x else Inl (ValidationError ''last_hash'')))"

subsection \<open>\<^verbatim>\<open>worker/__init__.py\<close>: \<^verbatim>\<open>upload\<close>\<close>

definition CHUNK_SIZE :: nat where
  "CHUNK_SIZE = 32 * 1024"

text \<open>What the worker puts on the intake socket: a tag and a body.\<close>

datatype frame = Chunk_frame bytes | Artifact_frame ArtifactMessage

text \<open>
  The loop of \<^verbatim>\<open>upload\<close> over the successive results of \<^verbatim>\<open>toupload.read(CHUNK_SIZE)\<close>;
  it ends at the first empty read. It returns the packed chunk messages it sent and the
  final \<^verbatim>\<open>last_hash\<close>.
\<close>

fun upload_loop ::
  "(ChunkMessage \<Rightarrow> bytes) \<Rightarrow> (bytes \<Rightarrow> bytes) \<Rightarrow> bytes \<Rightarrow> bytes list \<Rightarrow> bytes list \<times> bytes" where
  "upload_loop dumps H lh [] = ([], lh)"
| "upload_loop dumps H lh (d # ds) =
     (if length d = 0 then ([], lh)
      else (let m = dumps \<lparr>last_hash = lh, data = d\<rparr>;
                r = upload_loop dumps H (H m) ds
            in (m # fst r, snd r)))"

text \<open>The reads of a file of content \<open>xs\<close>, \<open>n\<close> bytes at a time, up to the end of the file.\<close>

function read_chunks :: "nat \<Rightarrow> bytes \<Rightarrow> bytes list" where
  "read_chunks n xs =
     (if n = 0 \<or> xs = [] then [] else take n xs # read_chunks n (drop n xs))"
  by pat_completeness auto
termination
  by (relation "measure (\<lambda>(n, xs). length xs)") auto

declare read_chunks.simps [simp del]

definition basename :: "string \<Rightarrow> string" where
  "basename p = rev (takeWhile (\<lambda>c. c \<noteq> CHR ''/'') (rev p))"

definition send_fail :: "string \<Rightarrow> string \<Rightarrow> string \<Rightarrow> frame list" where
  "send_fail proj knd nm =
     [Artifact_frame \<lparr>am_project = proj, artifact_type = knd, artifact = nm,
                      am_success = False, filename = None, am_last_hash = None\<rparr>]"

text \<open>
  \<^verbatim>\<open>upload\<close> on a file system \<open>fs\<close> (path to content); a missing file is the
  \<^verbatim>\<open>FileNotFoundError\<close> branch, which sends a failure record.
\<close>

definition upload ::
  "(ChunkMessage \<Rightarrow> bytes) \<Rightarrow> (bytes \<Rightarrow> bytes) \<Rightarrow> (string \<times> bytes) list
   \<Rightarrow> string \<Rightarrow> string \<Rightarrow> string \<Rightarrow> string \<Rightarrow> frame list" where
  "upload dumps H fs proj knd nm fpath =
     (case map_of fs fpath of
        None \<Rightarrow> send_fail proj knd nm
      | Some content \<Rightarrow>
          (let r = upload_loop dumps H ''initial'' (read_chunks CHUNK_SIZE content)
           in map Chunk_frame (fst r)
              @ [Artifact_frame \<lparr>am_project = proj, artifact_type = knd, artifact = nm,
                                 am_success = True, filename = Some (basename fpath),
                                 am_last_hash = Some (snd r)\<rparr>]))"

subsection \<open>\<^verbatim>\<open>coordinator/__init__.py\<close>: \<^verbatim>\<open>cmd_chunk\<close>\<close>

definition tmp_name :: "nat \<Rightarrow> string" where
  "tmp_name n = ''tmp'' @ replicate n (CHR ''_'')"

text \<open>\<^verbatim>\<open>os.write(fd, data)\<close> appends to the staging file.\<close>

definition fd_write :: "(nat \<times> bytes) list \<Rightarrow> nat \<Rightarrow> bytes \<Rightarrow> (nat \<times> bytes) list" where
  "fd_write st fd d =
     dict_set st fd ((case map_of st fd of None \<Rightarrow> [] | Some old \<Rightarrow> old) @ d)"

text \<open>
  The tuple \<^verbatim>\<open>store\<close> holds a reference to its hasher, so the table entry written before
  \<^verbatim>\<open>store[2].update\<close> sees the update: the model updates first and stores the result.
\<close>

definition cmd_chunk ::
  "(bytes \<Rightarrow> ChunkMessage option) \<Rightarrow> (bytes \<Rightarrow> bytes) \<Rightarrow> xbbs \<Rightarrow> bytes \<Rightarrow> error option \<times> xbbs" where
  "cmd_chunk loads H inst v =
     (case ChunkMessage_unpack loads v of
        Inl e \<Rightarrow> (Some e, inst)
      | Inr chunk \<Rightarrow>
          (let found =
                 (if last_hash chunk = ''initial''
                  then Some (\<lparr>cs_fd = next_fd inst,
                               cs_path = path_join (collection_dir inst) (tmp_name (next_fd inst)),
                               cs_hasher = []\<rparr>,
                             inst\<lparr>staging := dict_set (staging inst) (next_fd inst) [],
                                  next_fd := Suc (next_fd inst)\<rparr>)
                  else (case map_of (chunk_table inst) (last_hash chunk) of
                          None \<Rightarrow> None
                        | Some store \<Rightarrow>
                            Some (store,
                                  inst\<lparr>chunk_table :=
                                         dict_del (chunk_table inst) (last_hash chunk)\<rparr>)))
           in (case found of
                 None \<Rightarrow> (None, inst)
               | Some (store, inst1) \<Rightarrow>
                   (let digest = H v;
                        store1 = store\<lparr>cs_hasher := cs_hasher store @ data chunk\<rparr>
                    in (None,
                        inst1\<lparr>chunk_table := dict_set (chunk_table inst1) digest store1,
                              staging := fd_write (staging inst1) (cs_fd store) (data chunk)\<rparr>)))))"

text \<open>The intake loop hands the frames to the handler one after the other.\<close>

fun cmd_chunks ::
  "(bytes \<Rightarrow> ChunkMessage option) \<Rightarrow> (bytes \<Rightarrow> bytes) \<Rightarrow> xbbs \<Rightarrow> bytes list \<Rightarrow> xbbs" where
  "cmd_chunks loads H inst [] = inst"
| "cmd_chunks loads H inst (v # vs) = cmd_chunks loads H (snd (cmd_chunk loads H inst v)) vs"


subsection \<open>\<^verbatim>\<open>coordinator/__init__.py\<close>: \<^verbatim>\<open>cmd_artifact\<close>\<close>

text \<open>
  The \<^verbatim>\<open>finally\<close> clause of \<^verbatim>\<open>cmd_artifact\<close> persists the status of a build that is not
  done.
\<close>

definition artifact_finally :: "build \<Rightarrow> build" where
  "artifact_finally run = (if \<not> terminating_state (state run) then store_status None run else run)"

definition set_bits :: "build \<Rightarrow> addr \<Rightarrow> bool \<Rightarrow> bool \<Rightarrow> build" where
  "set_bits run a r f = run\<lparr>arts := (arts run)[a := (arts run ! a)\<lparr>received := r, failed := f\<rparr>]\<rparr>"

definition set_failed :: "build \<Rightarrow> addr \<Rightarrow> build" where
  "set_failed run a = run\<lparr>arts := (arts run)[a := (arts run ! a)\<lparr>failed := True\<rparr>]\<rparr>"

text \<open>
  \<^verbatim>\<open>isinstance(arch, list)\<close> followed by \<^verbatim>\<open>assert len(arch) == 1\<close>, inside the
  \<^verbatim>\<open>try\<close> of the deposit.
\<close>

definition arch_assert :: "arch \<Rightarrow> bool" where
  "arch_assert a = (case a of ArchList l \<Rightarrow> length l = 1 | _ \<Rightarrow> True)"

text \<open>
  \<^verbatim>\<open>cmd_artifact\<close>. The parameter \<open>deposit_ok\<close> says whether the file operations and
  external commands of the deposit (\<^verbatim>\<open>shutil.move\<close>, \<^verbatim>\<open>xbps-rindex\<close>, the copy into the
  rolling repository, signing) all succeed; the history database is not configured.
  The steps, in the source's order:
  \<^item> the message is validated, before the \<^verbatim>\<open>try\<close>;
  \<^item> an unknown project returns inside the \<^verbatim>\<open>try\<close>, and the \<^verbatim>\<open>finally\<close> clause then
    reads the local \<^verbatim>\<open>run\<close> before its assignment;
  \<^item> a project that is not building, or an artifact name that the build does not know,
    returns;
  \<^item> the artifact is marked \<^verbatim>\<open>received = True\<close>, \<^verbatim>\<open>failed = not success\<close>; a failure
    record wakes the solver and returns;
  \<^item> \<^verbatim>\<open>cmd_chunk.table[message.last_hash]\<close> raises \<^verbatim>\<open>KeyError\<close> with the missing key
    (\<^verbatim>\<open>None\<close> for a message without \<^verbatim>\<open>last_hash\<close>) on a miss: the outer handler marks
    the artifact failed, wakes the solver and re-raises;
  \<^item> on a hit the entry is removed and the staging file deposited; a failed deposit
    marks the artifact failed; the solver is woken.
\<close>

definition cmd_artifact :: "bool \<Rightarrow> xbbs \<Rightarrow> ArtifactMessage \<Rightarrow> error option \<times> xbbs" where
  "cmd_artifact deposit_ok inst x =
     (case ArtifactMessage_unpack x of
        Inl e \<Rightarrow> (Some e, inst)
      | Inr message \<Rightarrow>
          (case map_of (projects inst) (am_project message) of
             None \<Rightarrow> (Some (UnboundLocalError ''run''), inst)
           | Some proj \<Rightarrow>
               (case current proj of
                  None \<Rightarrow> (None, inst)
                | Some run \<Rightarrow>
                    (let aset = (if artifact_type message = ''tool'' then tool_set run
                                 else if artifact_type message = ''file'' then file_set run
                                 else pkg_set run);
                         p = am_project message
                     in (case map_of aset (artifact message) of
                           None \<Rightarrow> (None, set_current inst p proj (artifact_finally run))
                         | Some a \<Rightarrow>
                             (let run1 = set_bits run a True (\<not> am_success message)
                              in if \<not> am_success message
                                 then (None, set_current inst p proj
                                               (artifact_finally (run1\<lparr>artifact_received := True\<rparr>)))
                                 else (case (case am_last_hash message of
                                               None \<Rightarrow> None
                                             | Some h \<Rightarrow> map_of (chunk_table inst) h) of
                                         None \<Rightarrow>
                                           (Some (KeyError (am_last_hash message)),
                                            set_current inst p proj
                                              (artifact_finally
                                                 ((set_failed run1 a)\<lparr>artifact_received := True\<rparr>)))
                                       | Some store \<Rightarrow>
                                           (let inst1 = inst\<lparr>chunk_table :=
                                                              dict_del (chunk_table inst)
                                                                (the (am_last_hash message))\<rparr>;
                                                run2 =
                                                  (case (filename message,
                                                         map_of (staging inst) (cs_fd store)) of
                                                     (Some f, Some content) \<Rightarrow>
                                                       if deposit_ok
                                                          \<and> arch_assert (architecture (arts run1 ! a))
                                                       then run1\<lparr>deposited :=
                                                              dict_set (deposited run1)
                                                                (path_join (artifact_type message @ ''_repo'') f)
                                                                content\<rparr>
                                                       else set_failed run1 a
                                                   | _ \<Rightarrow> set_failed run1 a);
                                                inst2 = inst1\<lparr>staging :=
                                                               dict_del (staging inst1) (cs_fd store)\<rparr>
                                            in (None,
                                                set_current inst2 p proj
                                                  (artifact_finally
                                                     (run2\<lparr>artifact_received := True\<rparr>)))))))))))"

text \<open>
  One turn of \<^verbatim>\<open>intake_loop\<close> for an artifact frame: an exception of the handler is
  logged and the loop continues.
\<close>

definition intake_artifact :: "bool \<Rightarrow> xbbs \<Rightarrow> ArtifactMessage \<Rightarrow> xbbs" where
  "intake_artifact deposit_ok inst x =
     (case cmd_artifact deposit_ok inst x of
        (None, inst') \<Rightarrow> inst'
      | (Some e, inst') \<Rightarrow> inst'\<lparr>logged := logged inst' @ [e]\<rparr>)"

text \<open>The artifact that a project's current build knows under a type and a name.\<close>

definition current_artifact :: "xbbs \<Rightarrow> string \<Rightarrow> string \<Rightarrow> string \<Rightarrow> artifact option" where
  "current_artifact inst p t n =
     (case map_of (projects inst) p of
        None \<Rightarrow> None
      | Some proj \<Rightarrow>
          (case current proj of
             None \<Rightarrow> None
           | Some run \<Rightarrow>
               (case map_of (if t = ''tool'' then tool_set run
                             else if t = ''file'' then file_set run else pkg_set run) n of
                  None \<Rightarrow> None
                | Some a \<Rightarrow> if a < length (arts run) then Some (arts run ! a) else None)))"

text \<open>The chunk table's entry for an artifact message's \<^verbatim>\<open>last_hash\<close>, if any.\<close>

definition table_entry :: "xbbs \<Rightarrow> bytes option \<Rightarrow> chunk_store option" where
  "table_entry inst h = (case h of None \<Rightarrow> None | Some k \<Rightarrow> map_of (chunk_table inst) k)"

text \<open>A project's current build, by the project's name.\<close>

definition current_build :: "xbbs \<Rightarrow> string \<Rightarrow> build option" where
  "current_build inst p = (case map_of (projects inst) p of None \<Rightarrow> None | Some proj \<Rightarrow> current proj)"

section \<open>Graph construction (\<^verbatim>\<open>Build.set_graph\<close>)\<close>

text \<open>
  The graph is what \<^verbatim>\<open>json.loads\<close> made of the output of \<^verbatim>\<open>xbstrap-pipeline\<close>: a
  dictionary from job names to job descriptions, taken to have the shape of the schema
  (the listed keys with values of the listed types). The key \<^verbatim>\<open>capabilities\<close> is
  optional in the schema. \<^verbatim>\<open>GRAPH_VALIDATOR\<close> reduces a file product to its name; the two
  forms of a job description differ in the type \<open>'f\<close> of a file product.
\<close>

record desc =
  d_name :: string
  d_version :: string
  d_architecture :: string

record file_desc =
  f_name :: string
  f_filepath :: string

record 'f job_info =
  up2date :: bool
  i_unstable :: bool
  i_capabilities :: "string list option"
  products_tools :: "desc list"
  products_pkgs :: "desc list"
  products_files :: "'f list"
  needed_tools :: "desc list"
  needed_pkgs :: "desc list"

type_synonym raw_graph = "(string \<times> file_desc job_info) list"

type_synonym graph = "(string \<times> string job_info) list"

text \<open>
  \<^verbatim>\<open>JOB_REGEX = re.compile(r"^[a-z]+:.*$")\<close>, matched from the start of the name: one or
  more lower-case letters, a colon, and a rest without a line feed, except that \<^verbatim>\<open>$\<close>
  also matches before a line feed that ends the name.
\<close>

definition lower :: "char \<Rightarrow> bool" where
  "lower c = (c \<in> set ''abcdefghijklmnopqrstuvwxyz'')"

definition JOB_REGEX :: "string \<Rightarrow> bool" where
  "JOB_REGEX s =
     (takeWhile lower s \<noteq> [] \<and> dropWhile lower s \<noteq> []
      \<and> hd (dropWhile lower s) = CHR '':''
      \<and> CHR 0x0A \<notin> set (butlast (tl (dropWhile lower s))))"

text \<open>
  The validator of a job description. \<^verbatim>\<open>"?capabilities": V.AdaptBy(xutils.list_to_set)\<close>:
  if the key is there, its value is replaced by what \<^verbatim>\<open>list_to_set\<close> returns, and an
  exception of \<^verbatim>\<open>list_to_set\<close> is a validation error. The module \<^verbatim>\<open>xbbs.util\<close> is not
  among the sources, so \<open>list_to_set\<close> is a parameter (\<open>None\<close>: it raises). A file
  product \<^verbatim>\<open>{"name": ..., "filepath": ...}\<close> is adapted by \<^verbatim>\<open>operator.itemgetter("name")\<close>.
\<close>

definition job_validator ::
  "(string list \<Rightarrow> string list option) \<Rightarrow> file_desc job_info \<Rightarrow> string job_info option" where
  "job_validator list_to_set i =
     (case (case i_capabilities i of
              None \<Rightarrow> Some None
            | Some c \<Rightarrow> (case list_to_set c of None \<Rightarrow> None | Some c' \<Rightarrow> Some (Some c'))) of
        None \<Rightarrow> None
      | Some caps \<Rightarrow>
          Some \<lparr>up2date = up2date i, i_unstable = i_unstable i, i_capabilities = caps,
                products_tools = products_tools i, products_pkgs = products_pkgs i,
                products_files = map f_name (products_files i),
                needed_tools = needed_tools i, needed_pkgs = needed_pkgs i\<rparr>)"

text \<open>
  \<^verbatim>\<open>GRAPH_VALIDATOR = V.parse(V.Mapping(JOB_REGEX, {...}))\<close>: every item of the dictionary
  in turn; the first job name that does not match, or job description that is refused,
  raises \<^verbatim>\<open>ValidationError\<close>. The result is the dictionary of the adapted values.
\<close>

fun GRAPH_VALIDATOR ::
  "(string list \<Rightarrow> string list option) \<Rightarrow> raw_graph \<Rightarrow> error + graph" where
  "GRAPH_VALIDATOR list_to_set [] = Inr []"
| "GRAPH_VALIDATOR list_to_set (ji # g) =
     (case job_validator list_to_set (snd ji) of
        None \<Rightarrow> Inl (ValidationError (fst ji))
      | Some i \<Rightarrow>
          if \<not> JOB_REGEX (fst ji) then Inl (ValidationError (fst ji))
          else (case GRAPH_VALIDATOR list_to_set g of
                  Inl e \<Rightarrow> Inl e
                | Inr g' \<Rightarrow> Inr ((fst ji, i) # g')))"

text \<open>The dictionary that \<^verbatim>\<open>_handle_artifact\<close> selects by kind.\<close>

definition get_aset :: "Kind \<Rightarrow> build \<Rightarrow> (string \<times> addr) list" where
  "get_aset k b = (case k of TOOL \<Rightarrow> tool_set b | PACKAGE \<Rightarrow> pkg_set b | FILE \<Rightarrow> file_set b)"

definition put_aset :: "Kind \<Rightarrow> (string \<times> addr) list \<Rightarrow> build \<Rightarrow> build" where
  "put_aset k d b =
     (case k of TOOL \<Rightarrow> b\<lparr>tool_set := d\<rparr> | PACKAGE \<Rightarrow> b\<lparr>pkg_set := d\<rparr>
      | FILE \<Rightarrow> b\<lparr>file_set := d\<rparr>)"

definition Artifact :: "Kind \<Rightarrow> desc \<Rightarrow> artifact" where
  "Artifact k x =
     \<lparr>kind = k, name = d_name x, version = Some (d_version x),
      architecture = ArchStr (d_architecture x), received = False, failed = False\<rparr>"

text \<open>
  \<^verbatim>\<open>_handle_artifact(kind, reqset, x)\<close> on the build, the local \<^verbatim>\<open>arch_set\<close> and the list
  \<^verbatim>\<open>reqset\<close> (the new job's \<^verbatim>\<open>deps\<close> or \<^verbatim>\<open>products\<close>). A new name allocates the artifact
  at the end of the store; a known name reuses the stored object, and it is that
  object's architecture, not the descriptor's, that is read. \<^verbatim>\<open>arch_set\<close> is a Python
  set: a list without repetitions here, and a list is no member of a set
  (\<^verbatim>\<open>TypeError: unhashable type\<close>).
\<close>

fun handle_artifact ::
  "Kind \<Rightarrow> desc \<Rightarrow> build \<times> arch list \<times> addr list \<Rightarrow> error + build \<times> arch list \<times> addr list" where
  "handle_artifact k x (b, arch_set, reqset) =
     (let (b1, a) =
            (case map_of (get_aset k b) (d_name x) of
               None \<Rightarrow>
                 (put_aset k (dict_set (get_aset k b) (d_name x) (length (arts b)))
                    (b\<lparr>arts := arts b @ [Artifact k x]\<rparr>),
                  length (arts b))
             | Some a \<Rightarrow> (b, a));
          reqset1 = reqset @ [a];
          ta = architecture (arts b1 ! a)
      in if ta = ArchStr ''noarch'' then Inr (b1, arch_set, reqset1)
         else (case ta of
                 ArchList l \<Rightarrow> Inl (TypeError (Unhashable ''list''))
               | _ \<Rightarrow>
                   if arch_set \<noteq> [] \<and> ta \<notin> set arch_set
                   then Inl (RuntimeError ''multiarch builds unsupported'')
                   else Inr (b1, List.insert ta arch_set, reqset1)))"

fun handle_artifacts ::
  "Kind \<Rightarrow> desc list \<Rightarrow> build \<times> arch list \<times> addr list \<Rightarrow> error + build \<times> arch list \<times> addr list" where
  "handle_artifacts k [] st = Inr st"
| "handle_artifacts k (x # xs) st =
     (case handle_artifact k x st of Inl e \<Rightarrow> Inl e | Inr st1 \<Rightarrow> handle_artifacts k xs st1)"

text \<open>The loop over \<^verbatim>\<open>info["products"]["files"]\<close>: a new object for every file name.\<close>

fun add_files :: "string list \<Rightarrow> build \<times> addr list \<Rightarrow> build \<times> addr list" where
  "add_files [] st = st"
| "add_files (fname # fs) (b, prods) =
     add_files fs
       (b\<lparr>arts := arts b @ [\<lparr>kind = FILE, name = fname, version = None,
                               architecture = ArchNone, received = False, failed = False\<rparr>],
          file_set := dict_set (file_set b) fname (length (arts b))\<rparr>,
        prods @ [length (arts b)])"

text \<open>The loop of an up-to-date job over its products.\<close>

fun mark_up2date :: "addr list \<Rightarrow> build \<Rightarrow> build" where
  "mark_up2date [] b = b"
| "mark_up2date (a # as) b = mark_up2date as (set_bits b a True False)"

text \<open>
  The body of the loop over \<^verbatim>\<open>graph.items()\<close>. Its first statement constructs the job
  from \<^verbatim>\<open>info["unstable"]\<close> and \<^verbatim>\<open>info["capabilities"]\<close>: a job description without
  the optional key is a \<^verbatim>\<open>KeyError\<close>.
\<close>

definition set_graph_job ::
  "string \<times> string job_info \<Rightarrow> build \<times> arch list \<Rightarrow> error + build \<times> arch list" where
  "set_graph_job ji st =
     (case i_capabilities (snd ji) of
        None \<Rightarrow> Inl (KeyError (Some ''capabilities''))
      | Some caps \<Rightarrow>
     (case handle_artifacts TOOL (needed_tools (snd ji)) (fst st, snd st, []) of
        Inl e \<Rightarrow> Inl e
      | Inr st1 \<Rightarrow>
     (case handle_artifacts PACKAGE (needed_pkgs (snd ji)) st1 of
        Inl e \<Rightarrow> Inl e
      | Inr (b2, as2, deps2) \<Rightarrow>
     (case handle_artifacts TOOL (products_tools (snd ji)) (b2, as2, []) of
        Inl e \<Rightarrow> Inl e
      | Inr st3 \<Rightarrow>
     (case handle_artifacts PACKAGE (products_pkgs (snd ji)) st3 of
        Inl e \<Rightarrow> Inl e
      | Inr (b4, as4, prods4) \<Rightarrow>
          (let (b5, prods5) = add_files (products_files (snd ji)) (b4, prods4);
               job_val = (Job (i_unstable (snd ji)) caps)
                           \<lparr>deps := deps2, products := prods5\<rparr>;
               b6 = (if up2date (snd ji) then mark_up2date prods5 b5 else b5);
               job_val1 = (if up2date (snd ji) then job_val\<lparr>status := UP_TO_DATE\<rparr> else job_val)
           in Inr (b6\<lparr>jobs := dict_set (jobs b6) (fst ji) job_val1\<rparr>, as4)))))))"

fun set_graph_jobs :: "graph \<Rightarrow> build \<times> arch list \<Rightarrow> error + build \<times> arch list" where
  "set_graph_jobs [] st = Inr st"
| "set_graph_jobs (ji # g) st =
     (case set_graph_job ji st of Inl e \<Rightarrow> Inl e | Inr st1 \<Rightarrow> set_graph_jobs g st1)"

text \<open>
  The final loop over \<^verbatim>\<open>chain(tools.values(), pkgs.values())\<close>; \<^verbatim>\<open>list(arch_set)\<close> is the
  list of the set's members.
\<close>

fun rewrite_noarch :: "arch list \<Rightarrow> addr list \<Rightarrow> build \<Rightarrow> build" where
  "rewrite_noarch arch_set [] b = b"
| "rewrite_noarch arch_set (a # as) b =
     rewrite_noarch arch_set as
       (if architecture (arts b ! a) = ArchStr ''noarch''
        then b\<lparr>arts := (arts b)[a := (arts b ! a)\<lparr>architecture := ArchList arch_set\<rparr>]\<rparr>
        else b)"

text \<open>
  \<^verbatim>\<open>set_graph\<close>; the argument \<^verbatim>\<open>project\<close> is not used by the source. The graph is
  validated first, and the loop runs over the validator's result. An exception leaves a
  partly filled build behind, which \<^verbatim>\<open>run_project\<close> only marks as done; the model
  returns the exception alone.
\<close>

definition set_graph ::
  "(string list \<Rightarrow> string list option) \<Rightarrow> build \<Rightarrow> string \<Rightarrow> raw_graph
   \<Rightarrow> (string \<times> (string \<times> string) list) list \<Rightarrow> error + build" where
  "set_graph list_to_set b rv graph co =
     (case GRAPH_VALIDATOR list_to_set graph of
        Inl e \<Rightarrow> Inl e
      | Inr g \<Rightarrow>
     (case set_graph_jobs g (b\<lparr>revision := Some rv, commits_object := co\<rparr>, []) of
        Inl e \<Rightarrow> Inl e
      | Inr (b1, arch_set) \<Rightarrow>
          Inr (store_status None
                 (rewrite_noarch arch_set
                    (dict_values (tool_set b1) @ dict_values (pkg_set b1)) b1))))"

text \<open>
  The tool and package descriptors of a graph in the order in which \<^verbatim>\<open>set_graph\<close> hands
  them to \<^verbatim>\<open>_handle_artifact\<close>, and the descriptor that registers a name: the first one
  of its kind and name.
\<close>

definition job_descs :: "'f job_info \<Rightarrow> (Kind \<times> desc) list" where
  "job_descs i =
     map (Pair TOOL) (needed_tools i) @ map (Pair PACKAGE) (needed_pkgs i)
     @ map (Pair TOOL) (products_tools i) @ map (Pair PACKAGE) (products_pkgs i)"

definition graph_descs :: "(string \<times> 'f job_info) list \<Rightarrow> (Kind \<times> desc) list" where
  "graph_descs g = concat (map (\<lambda>ji. job_descs (snd ji)) g)"

definition first_desc :: "(Kind \<times> desc) list \<Rightarrow> Kind \<Rightarrow> string \<Rightarrow> desc option" where
  "first_desc ds k n = map_of (map (\<lambda>kd. ((fst kd, d_name (snd kd)), snd kd)) ds) (k, n)"

text \<open>
  The concrete architectures of a graph: those of its registering descriptors that are
  not \<^verbatim>\<open>"noarch"\<close>.
\<close>

definition concrete_archs :: "(Kind \<times> desc) list \<Rightarrow> string set" where
  "concrete_archs ds =
     {d_architecture d | k n d. first_desc ds k n = Some d \<and> d_architecture d \<noteq> ''noarch''}"

definition multiarch :: "(Kind \<times> desc) list \<Rightarrow> bool" where
  "multiarch ds = (\<exists>s t. s \<in> concrete_archs ds \<and> t \<in> concrete_archs ds \<and> s \<noteq> t)"

text \<open>A build as \<^verbatim>\<open>Build.create\<close> makes it: no job, no artifact.\<close>

definition fresh :: "build \<Rightarrow> bool" where
  "fresh b = (jobs b = [] \<and> tool_set b = [] \<and> pkg_set b = [] \<and> file_set b = [] \<and> arts b = [])"

section \<open>Failure cascade (\<^verbatim>\<open>Job.fail\<close>)\<close>

text \<open>
  \<^verbatim>\<open>prod in job.deps\<close> for the job at position \<open>k\<close> of the graph: the same object, or
  one that the generated \<^verbatim>\<open>__eq__\<close> finds equal.
\<close>

definition consumes :: "build \<Rightarrow> nat \<Rightarrow> addr \<Rightarrow> bool" where
  "consumes b k p =
     list_ex (\<lambda>d. d = p \<or> artifact_eq (arts b ! d) (arts b ! p)) (deps (snd (jobs b ! k)))"

text \<open>The status assignment at the head of \<^verbatim>\<open>Job.fail\<close>.\<close>

definition fail_status :: "job \<Rightarrow> job" where
  "fail_status j =
     j\<lparr>status := (if status j = RUNNING then WAITING_FOR_DONE
                   else if unstable j then IGNORED_FAILURE else FAILED)\<rparr>"

text \<open>A job is a mutable object too: position \<open>i\<close> of \<^verbatim>\<open>graph.values()\<close>.\<close>

definition set_job :: "build \<Rightarrow> nat \<Rightarrow> job \<Rightarrow> build" where
  "set_job b i j = b\<lparr>jobs := (jobs b)[i := (fst (jobs b ! i), j)]\<rparr>"

definition mark_failed :: "build \<Rightarrow> addr \<Rightarrow> build" where
  "mark_failed b p = b\<lparr>arts := (arts b)[p := (arts b ! p)\<lparr>failed := True, received := True\<rparr>]\<rparr>"

text \<open>
  \<^verbatim>\<open>Job.fail(self, graph)\<close> with \<open>self\<close> the job at position \<open>i\<close> of the build's jobs:
  \<open>fail_products\<close> is its loop over \<^verbatim>\<open>self.products\<close>, \<open>fail_consumers\<close> the inner loop
  over \<^verbatim>\<open>graph.values()\<close>, which calls \<^verbatim>\<open>fail\<close> again. A position outside the graph
  and an address outside the store have no counterpart in Python; the model passes over
  them.
\<close>

function fail :: "build \<Rightarrow> nat \<Rightarrow> build"
  and fail_products :: "build \<Rightarrow> addr list \<Rightarrow> build"
  and fail_consumers :: "build \<Rightarrow> addr \<Rightarrow> nat list \<Rightarrow> build" where
  "fail b i =
     (if i < length (jobs b)
      then fail_products (set_job b i (fail_status (snd (jobs b ! i))))
             (products (snd (jobs b ! i)))
      else b)"
| "fail_products b [] = b"
| "fail_products b (p # ps) =
     (if p < length (arts b) \<and> \<not> failed (arts b ! p)
      then fail_products (fail_consumers (mark_failed b p) p [0..<length (jobs b)]) ps
      else fail_products b ps)"
| "fail_consumers b p [] = b"
| "fail_consumers b p (k # ks) =
     (if consumes b k p
      then fail_consumers (fail b k) p ks
      else fail_consumers b p ks)"
  by pat_completeness auto

text \<open>
  The recursion ends: a recursive call of \<^verbatim>\<open>fail\<close> follows the marking of an artifact
  that was not failed, and nothing resets \<^verbatim>\<open>failed\<close>. (Python's recursion limit is not
  modelled.)
\<close>

definition unfailed :: "build \<Rightarrow> nat" where
  "unfailed b = sum_list (map (\<lambda>a. if failed a then 0 else 1) (arts b))"

lemma unfailed_set_job [simp]: "unfailed (set_job b i j) = unfailed b"
  by (simp add: unfailed_def set_job_def)

lemma unfailed_mark_failed:
  "p < length (arts b) \<Longrightarrow> \<not> failed (arts b ! p) \<Longrightarrow> unfailed (mark_failed b p) < unfailed b"
proof -
  assume p: "p < length (arts b)" and f: "\<not> failed (arts b ! p)"
  let ?f = "\<lambda>a. if failed a then 0 else (1::nat)"
  have "map ?f ((arts b)[p := (arts b ! p)\<lparr>failed := True, received := True\<rparr>])
        = (map ?f (arts b))[p := 0]"
    by (simp add: map_update)
  moreover have "sum_list ((map ?f (arts b))[p := 0]) = sum_list (map ?f (arts b)) + 0 - (map ?f (arts b)) ! p"
    using p by (simp add: sum_list_update)
  moreover have "(map ?f (arts b)) ! p = 1" using p f by simp
  moreover have "sum_list (map ?f (arts b)) \<ge> 1"
  proof -
    have "(map ?f (arts b)) ! p \<le> sum_list (map ?f (arts b))"
      using p by (intro elem_le_sum_list) simp
    then show ?thesis using p f by simp
  qed
  ultimately show ?thesis
    by (simp add: unfailed_def mark_failed_def)
qed

lemma fail_unfailed_dom:
  "fail_fail_products_fail_consumers_dom (Inl (b, i)) \<Longrightarrow> unfailed (fail b i) \<le> unfailed b"
  "fail_fail_products_fail_consumers_dom (Inr (Inl (b, ps))) \<Longrightarrow> unfailed (fail_products b ps) \<le> unfailed b"
  "fail_fail_products_fail_consumers_dom (Inr (Inr (b, p, ks))) \<Longrightarrow> unfailed (fail_consumers b p ks) \<le> unfailed b"
proof (induction rule: fail_fail_products_fail_consumers.pinduct)
  case (1 b i)
  then show ?case by (auto simp: fail.psimps)
next
  case (2 b)
  then show ?case by (simp add: fail_products.psimps)
next
  case (3 b p ps)
  show ?case
  proof (cases "p < length (arts b) \<and> \<not> failed (arts b ! p)")
    case True
    with 3 unfailed_mark_failed[of p b] show ?thesis
      by (simp add: fail_products.psimps)
  next
    case False
    with 3 show ?thesis by (auto simp: fail_products.psimps)
  qed
next
  case (4 b p)
  then show ?case by (simp add: fail_consumers.psimps)
next
  case (5 b p k ks)
  then show ?case
    by (cases "consumes b k p") (auto simp: fail_consumers.psimps intro: le_trans)
qed

termination fail
proof (relation "measures [
    (\<lambda>x. case x of Inl (b, i) \<Rightarrow> unfailed b | Inr (Inl (b, ps)) \<Rightarrow> unfailed b
                  | Inr (Inr (b, p, ks)) \<Rightarrow> unfailed b),
    (\<lambda>x. case x of Inl (b, i) \<Rightarrow> 1 | Inr (Inl (b, ps)) \<Rightarrow> 0 | Inr (Inr (b, p, ks)) \<Rightarrow> 2),
    (\<lambda>x. case x of Inl (b, i) \<Rightarrow> 0 | Inr (Inl (b, ps)) \<Rightarrow> length ps
                  | Inr (Inr (b, p, ks)) \<Rightarrow> length ks)]", goal_cases)
  case 1
  then show ?case by simp
next
  case (2 b i)
  then show ?case by simp
next
  case (3 b p ps)
  then show ?case by (simp add: unfailed_mark_failed)
next
  case (4 b p ps)
  then show ?case
    using fail_unfailed_dom(3)[of "mark_failed b p" p "[0..<length (jobs b)]"]
      unfailed_mark_failed[of p b]
    by simp
next
  case (5 b p ps)
  then show ?case by simp
next
  case (6 b p k ks)
  then show ?case by simp
next
  case (7 b p k ks)
  then show ?case
    using fail_unfailed_dom(1)[of b k] by auto
next
  case (8 b p k ks)
  then show ?case by simp
qed

declare fail.simps [simp del]

section \<open>The command surface (\<^verbatim>\<open>cmd_build\<close>)\<close>

text \<open>
  The names that the module \<^verbatim>\<open>xbbs/messages.py\<close> binds at its top level, in the order of
  the file, and \<^verbatim>\<open>msgs.<name>\<close>, the attribute access on the module: a name that the
  module does not bind is an \<^verbatim>\<open>AttributeError\<close>. The module has a \<^verbatim>\<open>ScheduleMessage\<close>
  with the attributes \<^verbatim>\<open>project\<close> and \<^verbatim>\<open>delay\<close>, and no \<^verbatim>\<open>BuildMessage\<close>.
\<close>

definition messages_names :: "string list" where
  "messages_names =
     [''re'', ''Enum'', ''attr'', ''msgpack'', ''V'', ''JobStatus'', ''BuildState'',
      ''BaseMessage'', ''_thing'', ''Heartbeat'', ''WorkMessage'', ''PKG_TOOL_VALIDATOR'',
      ''JobMessage'', ''_is_blake2b_digest'', ''ArtifactMessage'', ''LogMessage'',
      ''_last_hash_validator'', ''ChunkMessage'', ''JobCompletionMessage'', ''StatusMessage'',
      ''ScheduleMessage'']"

definition msgs_getattr :: "string \<Rightarrow> error + string" where
  "msgs_getattr n =
     (if n \<in> set messages_names then Inr n else Inl (AttributeError ''xbbs.messages'' n))"

text \<open>
  The three attributes that \<^verbatim>\<open>cmd_build\<close> reads from the message it has unpacked.
\<close>

record BuildMessage =
  bm_project :: string
  bm_delay :: number
  bm_incremental :: "bool option"

text \<open>
  \<^verbatim>\<open>Build.create\<close>: the build directory is the project's directory joined with the
  formatted creation time \<open>now\<close>; the new build is in the state \<open>SCHEDULED\<close> (the
  attribute's default) and \<^verbatim>\<open>store_status\<close> has written it.
\<close>

definition Build_create :: "xbbs \<Rightarrow> project \<Rightarrow> string \<Rightarrow> build" where
  "Build_create inst proj now =
     store_status None
       \<lparr>b_name = p_name proj, repository = git proj,
        build_directory = path_join (path_join (project_base inst) (p_name proj)) now,
        incremental = p_incremental proj, revision = None, state = SCHEDULED, jobs = [],
        success = True, ts = now, tool_set = [], file_set = [], pkg_set = [],
        commits_object = [], artifact_received = False, arts = [], coordfile = None,
        info_files = [], deposited = []\<rparr>"

text \<open>
  A command handler returns a pair of a status code and a value, or nothing, or raises.
  The first statement of \<^verbatim>\<open>cmd_build\<close> is \<^verbatim>\<open>msgs.BuildMessage.unpack(arg)\<close>: the class is
  looked up in the module, and then its \<^verbatim>\<open>unpack\<close> is called. \<open>unpack\<close> is the
  \<^verbatim>\<open>unpack\<close> of the class that the lookup returns, \<open>makedirs_ok\<close> says whether
  \<^verbatim>\<open>os.makedirs\<close> can create the build directory, and the spawned \<^verbatim>\<open>run_project\<close> is
  recorded by its arguments.
\<close>

definition cmd_build ::
  "(string \<Rightarrow> bytes \<Rightarrow> error + BuildMessage) \<Rightarrow> bool \<Rightarrow> string \<Rightarrow> xbbs \<Rightarrow> bytes
   \<Rightarrow> (error + (nat \<times> string) option) \<times> xbbs" where
  "cmd_build unpack makedirs_ok now inst arg =
     (case msgs_getattr ''BuildMessage'' of
        Inl e \<Rightarrow> (Inl e, inst)
      | Inr cls \<Rightarrow>
     (case unpack cls arg of
        Inl e \<Rightarrow> (Inl e, inst)
      | Inr msg \<Rightarrow>
          (case map_of (projects inst) (bm_project msg) of
             None \<Rightarrow> (Inr (Some (404, ''unknown project'')), inst)
           | Some proj \<Rightarrow>
               if current proj \<noteq> None
               then (Inr (Some (409, ''project already running'')), inst)
               else if \<not> makedirs_ok
               then (Inl (OSError ''makedirs''), inst)
               else (Inr None,
                     inst\<lparr>projects :=
                            dict_set (projects inst) (bm_project msg)
                              (proj\<lparr>current := Some (Build_create inst proj now)\<rparr>),
                          project_greenlets :=
                            project_greenlets inst
                            @ [(bm_project msg, bm_delay msg, bm_incremental msg)]\<rparr>))))"

text \<open>
  The status code that \<^verbatim>\<open>command_loop\<close> sends for a handler's outcome: 204 for no
  value, the handler's own code for a pair, 400 for a validation error and 500 for any
  other exception.
\<close>

definition reply_code :: "error + (nat \<times> string) option \<Rightarrow> nat" where
  "reply_code r =
     (case r of
        Inr None \<Rightarrow> 204
      | Inr (Some (code, v)) \<Rightarrow> code
      | Inl (ValidationError v) \<Rightarrow> 400
      | Inl e \<Rightarrow> 500)"

section \<open>The solver's scan (\<^verbatim>\<open>solve_project\<close>)\<close>

subsection \<open>\<^verbatim>\<open>messages.py\<close>: \<^verbatim>\<open>JobMessage\<close>\<close>

text \<open>
  The values that go into a message: \<^verbatim>\<open>None\<close>, strings and byte strings, lists and
  dictionaries.
\<close>

datatype pyval = PNone | PStr string | PList "pyval list" | PDict "(string \<times> pyval) list"

fun arch_val :: "arch \<Rightarrow> pyval" where
  "arch_val ArchNone = PNone"
| "arch_val (ArchStr s) = PStr s"
| "arch_val (ArchList l) = PList (map arch_val l)"

text \<open>
  The attributes that \<^verbatim>\<open>class JobMessage\<close> declares with \<^verbatim>\<open>attr.ib\<close>, in order, each
  with its default if it has one.
\<close>

definition JobMessage_attribs :: "(string \<times> pyval option) list" where
  "JobMessage_attribs =
     [(''project'', None), (''job'', None), (''repository'', None), (''revision'', None),
      (''output'', None), (''build_root'', None), (''needed_pkgs'', None),
      (''needed_tools'', None), (''prod_pkgs'', None), (''prod_tools'', None),
      (''prod_files'', None), (''tool_repo'', None), (''pkg_repo'', None),
      (''rolling_ids'', None), (''xbps_keys'', Some PNone)]"

text \<open>
  The \<^verbatim>\<open>__init__\<close> that \<^verbatim>\<open>attr.s\<close> generates, called with keyword arguments: the first
  keyword that is no attribute is a \<^verbatim>\<open>TypeError\<close> (unexpected keyword argument); if
  there is none, the attributes without default that no keyword gives are one (missing
  required arguments); otherwise the object has every attribute, from the keyword or
  the default.
\<close>

definition attrs_init ::
  "(string \<times> pyval option) list \<Rightarrow> (string \<times> pyval) list \<Rightarrow> error + (string \<times> pyval) list" where
  "attrs_init attribs kwargs =
     (case find (\<lambda>kv. fst kv \<notin> set (map fst attribs)) kwargs of
        Some kv \<Rightarrow> Inl (TypeError (Unexpected_keyword (fst kv)))
      | None \<Rightarrow>
          (case filter (\<lambda>nd. snd nd = None \<and> map_of kwargs (fst nd) = None) attribs of
             nd # nds \<Rightarrow> Inl (TypeError (Missing_arguments (map fst (nd # nds))))
           | [] \<Rightarrow>
               Inr (map (\<lambda>nd. (fst nd,
                                case map_of kwargs (fst nd) of
                                  Some v \<Rightarrow> v
                                | None \<Rightarrow> (case snd nd of Some v \<Rightarrow> v | None \<Rightarrow> PNone)))
                      attribs)))"

definition JobMessage :: "(string \<times> pyval) list \<Rightarrow> error + (string \<times> pyval) list" where
  "JobMessage kwargs = attrs_init JobMessage_attribs kwargs"

subsection \<open>\<^verbatim>\<open>coordinator/__init__.py\<close>: the loop over the jobs\<close>

text \<open>
  The scan works on the project's current build and the outgoing queue, and keeps the
  flag \<^verbatim>\<open>some_waiting\<close>. (The queue has one slot and \<^verbatim>\<open>put\<close> blocks until a worker
  takes the job; the model lists what has been put.) A step that raises returns the
  exception with the state it leaves.
\<close>

record solve_state =
  ss_build :: build
  ss_queue :: "(string list \<times> (string \<times> pyval) list) list"
  ss_some_waiting :: bool

definition produce_artifact_obj :: "artifact \<Rightarrow> pyval" where
  "produce_artifact_obj x =
     PDict [(''architecture'', arch_val (architecture x)),
            (''version'', (case version x of None \<Rightarrow> PNone | Some v \<Rightarrow> PStr v))]"

text \<open>A dictionary comprehension over the artifacts of one kind: a later name overwrites.\<close>

definition artifact_dict :: "build \<Rightarrow> Kind \<Rightarrow> addr list \<Rightarrow> pyval" where
  "artifact_dict b k as =
     PDict (fold (\<lambda>a d. dict_set d (name (arts b ! a)) (produce_artifact_obj (arts b ! a)))
              (filter (\<lambda>a. kind (arts b ! a) = k) as) [])"

definition commits_val :: "(string \<times> (string \<times> string) list) list \<Rightarrow> pyval" where
  "commits_val co = PDict (map (\<lambda>kv. (fst kv, PDict (map (\<lambda>e. (fst e, PStr (snd e))) (snd kv)))) co)"

definition opt_str :: "string option \<Rightarrow> pyval" where
  "opt_str x = (case x of None \<Rightarrow> PNone | Some v \<Rightarrow> PStr v)"

text \<open>
  The body of the loop for the job at position \<open>i\<close>. \<open>read_file\<close> is the file system
  as far as the public key is read. The keyword arguments are those of the call in the
  source, in its order; the job's status is set to \<open>RUNNING\<close> before the message is
  constructed.
\<close>

definition solve_job ::
  "(string \<Rightarrow> bytes option) \<Rightarrow> xbbs \<Rightarrow> project \<Rightarrow> nat \<Rightarrow> solve_state
   \<Rightarrow> (error \<times> solve_state) + solve_state" where
  "solve_job read_file inst projinfo i s =
     (let b = ss_build s;
          nm = fst (jobs b ! i);
          job0 = snd (jobs b ! i);
          job1 = (if list_all (\<lambda>x. received (arts b ! x)) (products job0) \<and> status job0 = RUNNING
                  then job0\<lparr>status := WAITING_FOR_DONE\<rparr> else job0);
          b1 = set_job b i job1;
          s1 = s\<lparr>ss_build := b1,
                 ss_some_waiting := (ss_some_waiting s \<or> \<not> terminating (status job1))\<rparr>
      in if status job1 \<noteq> WAITING then Inr s1
         else if list_ex (\<lambda>d. failed (arts b1 ! d)) (deps job1)
         then Inr (s1\<lparr>ss_build := (fail b1 i)\<lparr>artifact_received := True\<rparr>\<rparr>)
         else if \<not> list_all (\<lambda>d. received (arts b1 ! d)) (deps job1)
         then Inr s1
         else (case (case fingerprint projinfo of
                       None \<Rightarrow> Inr (PDict [])
                     | Some fp \<Rightarrow>
                         if fp = [] then Inr (PDict [])
                         else (case read_file (path_join (base projinfo) (fp @ ''.plist'')) of
                                 None \<Rightarrow> Inl (OSError (fp @ ''.plist''))
                               | Some k \<Rightarrow> Inr (PDict [(fp, PStr k)]))) of
                 Inl e \<Rightarrow> Inl (e, s1)
               | Inr keys \<Rightarrow>
                   (let b2 = set_job b1 i (job1\<lparr>status := RUNNING\<rparr>);
                        s2 = s1\<lparr>ss_build := b2\<rparr>
                    in (case JobMessage
                               [(''project'', PStr (b_name b2)),
                                (''job'', PStr nm),
                                (''repository'', PStr (repository b2)),
                                (''revision'', opt_str (revision b2)),
                                (''output'', PStr (intake_address inst)),
                                (''build_root'', PStr (build_root inst)),
                                (''needed_tools'', artifact_dict b2 TOOL (deps job1)),
                                (''needed_pkgs'', artifact_dict b2 PACKAGE (deps job1)),
                                (''prod_pkgs'', artifact_dict b2 PACKAGE (products job1)),
                                (''prod_tools'', artifact_dict b2 TOOL (products job1)),
                                (''prod_files'',
                                 PList (map (\<lambda>a. PStr (name (arts b2 ! a)))
                                          (filter (\<lambda>a. kind (arts b2 ! a) = FILE) (products job1)))),
                                (''tool_repo'', PStr (tools projinfo)),
                                (''pkg_repo'', PStr (packages projinfo)),
                                (''commits_object'', commits_val (commits_object b2)),
                                (''xbps_keys'', keys),
                                (''mirror_root'', opt_str (mirror_root projinfo)),
                                (''distfile_path'', PStr (distfile_path projinfo))] of
                          Inl e \<Rightarrow> Inl (e, s2)
                        | Inr jobreq \<Rightarrow>
                            Inr (s2\<lparr>ss_build := store_status None b2,
                                    ss_queue := ss_queue s2 @ [(capabilities job1, jobreq)]\<rparr>)))))"

text \<open>The \<^verbatim>\<open>for\<close> loop: the jobs in the order of the dictionary.\<close>

fun solve_jobs ::
  "(string \<Rightarrow> bytes option) \<Rightarrow> xbbs \<Rightarrow> project \<Rightarrow> nat list \<Rightarrow> solve_state
   \<Rightarrow> (error \<times> solve_state) + solve_state" where
  "solve_jobs read_file inst projinfo [] s = Inr s"
| "solve_jobs read_file inst projinfo (i # is) s =
     (case solve_job read_file inst projinfo i s of
        Inl e \<Rightarrow> Inl e
      | Inr s1 \<Rightarrow> solve_jobs read_file inst projinfo is s1)"

text \<open>
  One turn of the \<^verbatim>\<open>while\<close> loop up to its wait: the event is cleared, the jobs are
  scanned, and when no job is left waiting the result is whether all jobs were
  successful.
\<close>

definition solve_scan ::
  "(string \<Rightarrow> bytes option) \<Rightarrow> xbbs \<Rightarrow> project \<Rightarrow> solve_state
   \<Rightarrow> (error \<times> solve_state) + (bool option \<times> solve_state)" where
  "solve_scan read_file inst projinfo s =
     (case solve_jobs read_file inst projinfo [0..<length (jobs (ss_build s))]
             (s\<lparr>ss_build := (ss_build s)\<lparr>artifact_received := False\<rparr>, ss_some_waiting := False\<rparr>) of
        Inl e \<Rightarrow> Inl e
      | Inr s1 \<Rightarrow>
          if \<not> ss_some_waiting s1
          then Inr (Some (list_all (\<lambda>j. successful (status (snd j))) (jobs (ss_build s1))), s1)
          else Inr (None, s1))"

section \<open>The build driver (\<^verbatim>\<open>run_project\<close>)\<close>

text \<open>
  The driver's \<^verbatim>\<open>try\<close> block is a sequence of steps on the build, the list of external
  commands invoked so far, the states passed to \<^verbatim>\<open>update_state\<close>, and the local
  \<^verbatim>\<open>success\<close>. A step that raises returns the exception with the state it leaves.
\<close>

record run_state =
  rs_build :: build
  rs_cmds :: "string list list"
  rs_states :: "BuildState list"
  rs_success :: bool

type_synonym step = "run_state \<Rightarrow> (error \<times> run_state) + run_state"

fun steps :: "step list \<Rightarrow> step" where
  "steps [] s = Inr s"
| "steps (f # fs) s = (case f s of Inl e \<Rightarrow> Inl e | Inr s1 \<Rightarrow> steps fs s1)"

text \<open>\<^verbatim>\<open>build.update_state(msgs.BuildState.<name>)\<close>: the member is looked up first.\<close>

definition set_state :: "string \<Rightarrow> step" where
  "set_state n s =
     (case BuildState_getattr n of
        Inl e \<Rightarrow> Inl (e, s)
      | Inr v \<Rightarrow> Inr (s\<lparr>rs_build := update_state v (rs_build s), rs_states := rs_states s @ [v]\<rparr>))"

text \<open>
  \<^verbatim>\<open>check_call_logged\<close> and \<^verbatim>\<open>check_output_logged\<close>: \<open>ok\<close> says which commands exit
  with status zero.
\<close>

definition call :: "(string list \<Rightarrow> bool) \<Rightarrow> string list \<Rightarrow> step" where
  "call ok c s =
     (if ok c then Inr (s\<lparr>rs_cmds := rs_cmds s @ [c]\<rparr>)
      else Inl (CalledProcessError c, s\<lparr>rs_cmds := rs_cmds s @ [c]\<rparr>))"

text \<open>
  The operations on the file system that the \<^verbatim>\<open>try\<close> block performs besides the
  commands: \<open>io_ok\<close> says which of them succeed; one that fails raises \<^verbatim>\<open>OSError\<close>.
\<close>

definition io :: "(string \<Rightarrow> bool) \<Rightarrow> string \<Rightarrow> step" where
  "io io_ok n s = (if io_ok n then Inr s else Inl (OSError n, s))"

text \<open>Python's truth value of an optional string.\<close>

definition truthy :: "string option \<Rightarrow> bool" where
  "truthy x = (case x of None \<Rightarrow> False | Some v \<Rightarrow> v \<noteq> [])"

text \<open>
  The \<^verbatim>\<open>try\<close> block up to the mirror update, in the source's order; \<open>projdir\<close> is the
  temporary checkout directory. The \<^verbatim>\<open>with\<close> statement takes the lock, makes the
  temporary directory and the symbolic link; the sleep leaves no trace in the state;
  the distfiles are merged if the checkout has them.
\<close>

definition run_project_setup ::
  "(string list \<Rightarrow> bool) \<Rightarrow> (string \<Rightarrow> bool) \<Rightarrow> string \<Rightarrow> project \<Rightarrow> step list" where
  "run_project_setup ok io_ok projdir project =
     [io io_ok ''lock_file'',
      io io_ok ''TemporaryDirectory'',
      io io_ok ''symlink'',
      set_state ''FETCH'',
      call ok [''git'', ''init''],
      call ok [''git'', ''remote'', ''add'', ''origin'', git project],
      call ok [''git'', ''fetch'', ''origin''],
      call ok [''git'', ''checkout'', ''--detach'', ''origin/'' @ default_branch project],
      call ok [''git'', ''rev-parse'', ''HEAD''],
      set_state ''SETUP'',
      io io_ok ''TemporaryDirectory'',
      io io_ok ''merge_tree_into'',
      call ok [''xbstrap'', ''init'', projdir]]
     @ (if truthy (mirror_root project)
        then [set_state ''UPDATING_MIRRORS'',
              io io_ok ''makedirs'',
              call ok [''xbstrap-mirror'', ''-S'', projdir, ''update'', ''--keep-going'']]
        else [])"

text \<open>
  \<^verbatim>\<open>run_project\<close>. The parameter \<open>rest\<close> stands for the remainder of the \<^verbatim>\<open>try\<close> block
  (the version pins, the graph, \<^verbatim>\<open>set_graph\<close>, the repositories and the solver, whose
  result it stores in \<open>rs_success\<close>). An exception leaves the \<^verbatim>\<open>with\<close> statement, whose
  exits may raise in turn, and reaches \<^verbatim>\<open>except Exception\<close>, which only logs; the
  \<^verbatim>\<open>finally\<close> clause detaches the build from the project, sets its state to \<open>DONE\<close> and
  stores the status with the value of \<^verbatim>\<open>success\<close>. A project without a current build is
  the \<^verbatim>\<open>AttributeError\<close> of \<^verbatim>\<open>build.incremental = increment\<close>, before the \<^verbatim>\<open>try\<close>.
\<close>

definition run_project ::
  "(string list \<Rightarrow> bool) \<Rightarrow> (string \<Rightarrow> bool) \<Rightarrow> string \<Rightarrow> step \<Rightarrow> project \<Rightarrow> bool option
   \<Rightarrow> error + project \<times> run_state" where
  "run_project ok io_ok projdir rest project incr =
     (case current project of
        None \<Rightarrow> Inl (AttributeError ''NoneType'' ''incremental'')
      | Some build0 \<Rightarrow>
          (let increment = (case incr of None \<Rightarrow> p_incremental project | Some v \<Rightarrow> v);
               s0 = \<lparr>rs_build = build0\<lparr>incremental := increment\<rparr>, rs_cmds = [],
                     rs_states = [], rs_success = False\<rparr>;
               s1 = (case steps (run_project_setup ok io_ok projdir project @ [rest]) s0 of
                       Inl es \<Rightarrow> snd es
                     | Inr s \<Rightarrow> s)
           in Inr (project\<lparr>current := None\<rparr>,
                   s1\<lparr>rs_build := store_status (Some (rs_success s1))
                                     ((rs_build s1)\<lparr>state := DONE\<rparr>)\<rparr>)))"

section \<open>Example objects\<close>

text \<open>
  A coordinator with one project, \<open>demo\<close>, whose current build has one running job.
  The concrete inputs of the theorems below are variations of it.
\<close>

definition ex_job :: job where
  "ex_job = (Job True [])\<lparr>status := RUNNING\<rparr>"

definition ex_build :: build where
  "ex_build =
     \<lparr>b_name = ''demo'', repository = ''https://example.org/demo.git'',
      build_directory = ''/base/demo/20240101_000000'', incremental = False,
      revision = Some ''abc'', state = RUNNING_state, jobs = [(''job:a'', ex_job)],
      success = True, ts = ''20240101_000000'', tool_set = [], file_set = [], pkg_set = [],
      commits_object = [], artifact_received = False, arts = [], coordfile = None,
      info_files = [], deposited = []\<rparr>"

definition ex_project :: project where
  "ex_project =
     \<lparr>p_name = ''demo'', git = ''https://example.org/demo.git'',
      packages = ''https://example.org/pkgs'', tools = ''https://example.org/tools'',
      base = ''/base/demo'', distfile_path = ''xbbs/'', p_incremental = False,
      fingerprint = None, current = Some ex_build, mirror_root = None,
      default_branch = ''master''\<rparr>"

definition ex_inst :: xbbs where
  "ex_inst =
     \<lparr>project_base = ''/base'', collection_dir = ''/base/_coldir'', tmp_dir = ''/base/_tmp'',
      build_root = ''/var/build'', intake_address = ''tcp://coordinator:1234'',
      projects = [(''demo'', ex_project)], project_greenlets = [], chunk_table = [],
      staging = [], next_fd = 0, logged = []\<rparr>"

text \<open>
  The same coordinator with a package \<open>p\<close> that the running job produces, and a success
  record for it whose \<^verbatim>\<open>last_hash\<close> is in nobody's chunk table.
\<close>

definition ex_pkg :: artifact where
  "ex_pkg = \<lparr>kind = PACKAGE, name = ''p'', version = Some ''1.0'',
             architecture = ArchStr ''x86_64'', received = False, failed = False\<rparr>"

definition ex_inst_pkg :: xbbs where
  "ex_inst_pkg =
     ex_inst\<lparr>projects :=
       [(''demo'', ex_project\<lparr>current :=
           Some (ex_build\<lparr>jobs := [(''job:a'', ex_job\<lparr>products := [0]\<rparr>)],
                          pkg_set := [(''p'', 0)], arts := [ex_pkg]\<rparr>)\<rparr>)]\<rparr>"

definition ex_artifact_message :: ArtifactMessage where
  "ex_artifact_message =
     \<lparr>am_project = ''demo'', artifact_type = ''package'', artifact = ''p'', am_success = True,
      filename = Some ''p-1.0.x86_64.xbps'', am_last_hash = Some (replicate 64 (CHR ''z''))\<rparr>"

text \<open>
  A build that \<^verbatim>\<open>run_project\<close> is about to hand a graph, a two-job graph with one
  concrete architecture, and a graph with two. \<open>ex_list_to_set\<close> makes a set of a list.
\<close>

definition ex_fresh :: build where
  "ex_fresh = ex_build\<lparr>jobs := [], state := CALCULATING, revision := None\<rparr>"

definition ex_list_to_set :: "string list \<Rightarrow> string list option" where
  "ex_list_to_set c = Some (remdups c)"

definition ex_desc :: "string \<Rightarrow> string \<Rightarrow> string \<Rightarrow> desc" where
  "ex_desc n v a = \<lparr>d_name = n, d_version = v, d_architecture = a\<rparr>"

definition ex_graph :: raw_graph where
  "ex_graph =
    [(''package:p'', \<lparr>up2date = False, i_unstable = False, i_capabilities = Some [],
        products_tools = [],
        products_pkgs = [ex_desc ''p'' ''1.0'' ''x86_64'', ex_desc ''q'' ''2'' ''noarch''],
        products_files = [\<lparr>f_name = ''f.txt'', f_filepath = ''out/f.txt''\<rparr>],
        needed_tools = [], needed_pkgs = []\<rparr>),
     (''tool:t'', \<lparr>up2date = True, i_unstable = True, i_capabilities = Some [''big''],
        products_tools = [ex_desc ''t'' ''3'' ''noarch''], products_pkgs = [],
        products_files = [], needed_tools = [],
        needed_pkgs = [ex_desc ''p'' ''1.0'' ''x86_64'', ex_desc ''q'' ''2'' ''noarch'']\<rparr>)]"




definition ex_graph_late :: raw_graph where
  "ex_graph_late =
    [(''package:qr'', \<lparr>up2date = False, i_unstable = False, i_capabilities = Some [],
        products_tools = [],
        products_pkgs = [ex_desc ''q'' ''2'' ''noarch'', ex_desc ''r'' ''1'' ''noarch''],
        products_files = [], needed_tools = [], needed_pkgs = []\<rparr>),
     (''tool:t'', \<lparr>up2date = False, i_unstable = False, i_capabilities = Some [],
        products_tools = [ex_desc ''t'' ''3'' ''noarch''], products_pkgs = [],
        products_files = [], needed_tools = [],
        needed_pkgs = [ex_desc ''q'' ''2'' ''x86_64'']\<rparr>)]"

text \<open>
  A build in which the waiting job \<open>package:pq\<close> depends on the failed package \<open>d\<close>
  and produces \<open>p\<close> and \<open>q\<close>; \<open>q\<close> is failed already; the running job \<open>tool:t\<close>
  consumes \<open>p\<close>, the waiting job \<open>tool:u\<close> consumes \<open>q\<close>.
\<close>

definition ex_art :: "Kind \<Rightarrow> string \<Rightarrow> bool \<Rightarrow> bool \<Rightarrow> artifact" where
  "ex_art k n r f = \<lparr>kind = k, name = n, version = Some ''1'', architecture = ArchStr ''x86_64'',
                    received = r, failed = f\<rparr>"

definition ex_cascade :: build where
  "ex_cascade = ex_build\<lparr>
     arts := [ex_art PACKAGE ''d'' True True, ex_art PACKAGE ''p'' True False,
              ex_art PACKAGE ''q'' True True, ex_art TOOL ''t'' False False,
              ex_art TOOL ''u'' False False],
     pkg_set := [(''d'', 0), (''p'', 1), (''q'', 2)],
     tool_set := [(''t'', 3), (''u'', 4)],
     jobs := [(''package:pq'', (Job False [])\<lparr>deps := [0], products := [1, 2]\<rparr>),
              (''tool:t'', (Job False [])\<lparr>deps := [1], products := [3], status := RUNNING\<rparr>),
              (''tool:u'', (Job False [])\<lparr>deps := [2], products := [4]\<rparr>)]\<rparr>"

text \<open>The coordinator with the project idle.\<close>

definition ex_idle :: xbbs where
  "ex_idle = ex_inst\<lparr>projects := [(''demo'', ex_project\<lparr>current := None\<rparr>)]\<rparr>"

text \<open>
  The solver's state for a build whose one job waits and depends on nothing, and the
  project with a new build and a mirror configured.
\<close>

definition ex_ready :: solve_state where
  "ex_ready = \<lparr>ss_build = ex_build\<lparr>jobs := [(''job:a'', Job False [])]\<rparr>, ss_queue = [],
               ss_some_waiting = False\<rparr>"

definition ex_mirrored :: project where
  "ex_mirrored = ex_project\<lparr>current := Some (ex_build\<lparr>jobs := [], state := SCHEDULED\<rparr>),
                             mirror_root := Some ''/srv/mirror''\<rparr>"

text \<open>
  A stand-in codec and digest for concrete runs: every byte of \<open>last_hash\<close> is prefixed
  with \<open>a\<close>, a \<open>b\<close> ends it, and the data follow; the digest is the first 64 bytes of the
  input padded with zeros.
\<close>

definition ex_dumps :: "ChunkMessage \<Rightarrow> bytes" where
  "ex_dumps c = concat (map (\<lambda>x. [CHR ''a'', x]) (last_hash c)) @ CHR ''b'' # data c"

fun ex_loads :: "bytes \<Rightarrow> ChunkMessage option" where
  "ex_loads [] = None"
| "ex_loads [t] = (if t = CHR ''b'' then Some \<lparr>last_hash = [], data = []\<rparr> else None)"
| "ex_loads (t # x # r) =
     (if t = CHR ''b'' then Some \<lparr>last_hash = [], data = x # r\<rparr>
      else (case ex_loads r of
              None \<Rightarrow> None
            | Some c \<Rightarrow> Some (c\<lparr>last_hash := x # last_hash c\<rparr>)))"

definition ex_H :: "bytes \<Rightarrow> bytes" where
  "ex_H x = take 64 (x @ replicate 64 (CHR ''0''))"

section \<open>Properties\<close>

subsection \<open>Job completion\<close>

text \<open>
  C8. When a \<^verbatim>\<open>JobCompletionMessage\<close> arrives for a job of the project's current build,
  then after \<^verbatim>\<open>cmd_job\<close>, whether it returns or raises, that job's status is \<open>SUCCESS\<close>
  exactly when the exit code is zero; for a non-zero exit code it is \<open>IGNORED_FAILURE\<close>
  exactly when the job is unstable and \<open>FAILED\<close> exactly when it is not; the message's
  exit code and run time are stored in the job, which is otherwise as before. The
  handler returns normally exactly when the files it writes can be opened (the job's
  \<^verbatim>\<open>.info\<close> file and, unless the build is done, the status file), and has then woken the
  solver; otherwise it raises the error of the \<^verbatim>\<open>open\<close> that failed.
\<close>

theorem cmd_job_sets_status:
  assumes "current_job inst (jc_project m) (jc_job m) = Some j"
  shows "\<exists>j' proj' cur'.
             current_job (snd (cmd_job open_ok inst m)) (jc_project m) (jc_job m) = Some j'
             \<and> (status j' = SUCCESS \<longleftrightarrow> jc_exit_code m = 0)
             \<and> (jc_exit_code m \<noteq> 0 \<longrightarrow>
                  (status j' = IGNORED_FAILURE \<longleftrightarrow> unstable j)
                  \<and> (status j' = FAILED \<longleftrightarrow> \<not> unstable j))
             \<and> exit_code j' = Some (jc_exit_code m)
             \<and> run_time j' = Some (jc_run_time m)
             \<and> unstable j' = unstable j \<and> deps j' = deps j \<and> products j' = products j
             \<and> capabilities j' = capabilities j
             \<and> map_of (projects (snd (cmd_job open_ok inst m))) (jc_project m) = Some proj'
             \<and> current proj' = Some cur'
             \<and> (fst (cmd_job open_ok inst m) = None \<longleftrightarrow>
                  open_ok (info cur' (jc_job m))
                  \<and> (terminating_state (state cur') \<or> open_ok (coordfile_path cur')))
             \<and> (fst (cmd_job open_ok inst m) = None \<longrightarrow> artifact_received cur')
             \<and> (fst (cmd_job open_ok inst m) \<noteq> None \<longrightarrow>
                  fst (cmd_job open_ok inst m) = Some (OSError (info cur' (jc_job m)))
                  \<or> fst (cmd_job open_ok inst m) = Some (OSError (coordfile_path cur')))"
  using assms
  by (auto simp: current_job_def cmd_job_def set_current_def Let_def map_of_dict_set
      complete_job_def store_status_def info_def coordfile_path_def split: option.splits)

theorem cmd_job_sets_status_witness:
  "current_job ex_inst ''demo'' ''job:a'' = Some ex_job
   \<and> (\<exists>j'. fst (cmd_job (\<lambda>p. True) ex_inst
                \<lparr>jc_project = ''demo'', jc_job = ''job:a'', jc_exit_code = 1, jc_run_time = 5\<rparr>) = None
          \<and> current_job (snd (cmd_job (\<lambda>p. True) ex_inst
                \<lparr>jc_project = ''demo'', jc_job = ''job:a'', jc_exit_code = 1, jc_run_time = 5\<rparr>))
               ''demo'' ''job:a'' = Some j'
          \<and> status j' = IGNORED_FAILURE
          \<and> exit_code j' = Some 1 \<and> run_time j' = Some 5)"
proof -
  have h: "current_job ex_inst ''demo'' ''job:a'' = Some ex_job"
    by (simp add: current_job_def ex_inst_def ex_project_def ex_build_def)
  have u: "unstable ex_job"
    by (simp add: ex_job_def Job_def)
  show ?thesis
    using h u
      cmd_job_sets_status [of ex_inst
        "\<lparr>jc_project = ''demo'', jc_job = ''job:a'', jc_exit_code = 1, jc_run_time = 5\<rparr>" ex_job
        "\<lambda>p. True"]
    by auto
qed

text \<open>
  The job \<open>package:a/b\<close> has a name that \<^verbatim>\<open>JOB_REGEX\<close> admits. Its \<^verbatim>\<open>.info\<close> file would
  lie in the directory \<open>package:a\<close> of the build directory, which does not exist: the
  handler raises after it has recorded the completion, and the solver is not woken.
\<close>

lemma cmd_job_info_unwritable:
  "fst (cmd_job (\<lambda>p. p \<noteq> ''/base/demo/20240101_000000/package:a/b.info'')
          (ex_inst\<lparr>projects :=
             [(''demo'', ex_project\<lparr>current := Some (ex_build\<lparr>jobs := [(''package:a/b'', ex_job)]\<rparr>)\<rparr>)]\<rparr>)
          \<lparr>jc_project = ''demo'', jc_job = ''package:a/b'', jc_exit_code = 0, jc_run_time = 5\<rparr>)
     = Some (OSError ''/base/demo/20240101_000000/package:a/b.info'')
   \<and> map_option (\<lambda>p. map_option (\<lambda>c. (map (status \<circ> snd) (jobs c), artifact_received c)) (current p))
       (map_of (projects (snd (cmd_job (\<lambda>p. p \<noteq> ''/base/demo/20240101_000000/package:a/b.info'')
          (ex_inst\<lparr>projects :=
             [(''demo'', ex_project\<lparr>current := Some (ex_build\<lparr>jobs := [(''package:a/b'', ex_job)]\<rparr>)\<rparr>)]\<rparr>)
          \<lparr>jc_project = ''demo'', jc_job = ''package:a/b'', jc_exit_code = 0, jc_run_time = 5\<rparr>)))
          ''demo'')
     = Some (Some ([SUCCESS], False))"
  by (simp add: cmd_job_def ex_inst_def ex_project_def ex_build_def ex_job_def Job_def
      set_current_def complete_job_def info_def path_join_def Let_def)

subsection \<open>Chunk streams\<close>

lemma initial_not_digest: "length x = 64 \<Longrightarrow> x \<noteq> ''initial''"
  by auto

lemma cmd_chunk_continue:
  assumes "loads v = Some c" and "length (last_hash c) = 64"
    and "map_of (chunk_table inst) (last_hash c) = Some st"
  shows "cmd_chunk loads H inst v =
           (None, inst\<lparr>chunk_table :=
                         dict_set (dict_del (chunk_table inst) (last_hash c)) (H v)
                           (st\<lparr>cs_hasher := cs_hasher st @ data c\<rparr>),
                       staging := fd_write (staging inst) (cs_fd st) (data c)\<rparr>)"
  using assms initial_not_digest[of "last_hash c"]
  by (simp add: cmd_chunk_def ChunkMessage_unpack_def last_hash_validator_def
      is_blake2b_digest_def Let_def)

lemma cmd_chunk_initial:
  assumes "loads v = Some c" and "last_hash c = ''initial''"
  shows "cmd_chunk loads H inst v =
           (None, inst\<lparr>chunk_table :=
                         dict_set (chunk_table inst) (H v)
                           \<lparr>cs_fd = next_fd inst,
                            cs_path = path_join (collection_dir inst) (tmp_name (next_fd inst)),
                            cs_hasher = data c\<rparr>,
                       staging := fd_write (dict_set (staging inst) (next_fd inst) [])
                                    (next_fd inst) (data c),
                       next_fd := Suc (next_fd inst)\<rparr>)"
  using assms
  by (simp add: cmd_chunk_def ChunkMessage_unpack_def last_hash_validator_def Let_def)

lemma map_of_fd_write:
  "map_of (fd_write s fd d) fd = Some ((case map_of s fd of None \<Rightarrow> [] | Some old \<Rightarrow> old) @ d)"
  by (simp add: fd_write_def map_of_dict_set)

lemma chunk_stream_continue:
  assumes "\<forall>c. loads (dumps c) = Some c" and "\<forall>x. length (H x) = 64"
    and "\<forall>c \<in> set cs. c \<noteq> []"
    and "length lh = 64"
    and "map_of (chunk_table inst) lh = Some st"
    and "map_of (staging inst) (cs_fd st) = Some F"
  shows "\<exists>st'. map_of (chunk_table (cmd_chunks loads H inst (fst (upload_loop dumps H lh cs))))
                  (snd (upload_loop dumps H lh cs)) = Some st'
              \<and> cs_fd st' = cs_fd st
              \<and> cs_hasher st' = cs_hasher st @ concat cs
              \<and> map_of (staging (cmd_chunks loads H inst (fst (upload_loop dumps H lh cs))))
                  (cs_fd st) = Some (F @ concat cs)"
  using assms
proof (induction cs arbitrary: inst lh st F)
  case Nil
  then show ?case by simp
next
  case (Cons d ds)
  let ?c = "\<lparr>last_hash = lh, data = d\<rparr>"
  let ?m = "dumps ?c"
  let ?st1 = "st\<lparr>cs_hasher := cs_hasher st @ d\<rparr>"
  let ?inst1 = "inst\<lparr>chunk_table := dict_set (dict_del (chunk_table inst) lh) (H ?m) ?st1,
                      staging := fd_write (staging inst) (cs_fd st) d\<rparr>"
  have d: "d \<noteq> []" using Cons.prems(3) by simp
  have ld: "loads ?m = Some ?c" using Cons.prems(1) by blast
  have step: "cmd_chunk loads H inst ?m = (None, ?inst1)"
    using cmd_chunk_continue[where loads = loads and v = ?m and c = ?c and inst = inst
        and st = st and H = H] ld Cons.prems(4,5)
    by simp
  have a: "length (H ?m) = 64" using Cons.prems(2) by blast
  have b: "map_of (chunk_table ?inst1) (H ?m) = Some ?st1"
    by (simp add: map_of_dict_set)
  have c: "map_of (staging ?inst1) (cs_fd ?st1) = Some (F @ d)"
    using Cons.prems(6) by (simp add: map_of_fd_write)
  have rest: "\<forall>c \<in> set ds. c \<noteq> []" using Cons.prems(3) by simp
  from Cons.IH[OF Cons.prems(1) Cons.prems(2) rest a b c]
  show ?case using d step by (simp add: Let_def)
qed

text \<open>
  C2. Let the byte sequence \<open>S = concat cs\<close> be cut into the non-empty chunks \<open>cs\<close>
  (at least one). The worker's loop sends one packed \<^verbatim>\<open>ChunkMessage\<close> per chunk, the
  first with \<^verbatim>\<open>last_hash = "initial"\<close>, each later one with the digest of the packed
  message before it. When \<^verbatim>\<open>cmd_chunk\<close> has handled these messages in order, from any
  coordinator state, the chunk table holds under the sender's final \<^verbatim>\<open>last_hash\<close> an entry
  whose staging file contains exactly \<open>S\<close> and whose hasher's digest is \<open>H S\<close>. The codec
  is any \<open>dumps\<close>/\<open>loads\<close> pair that round-trips, the digest any function with 64-byte
  values.
\<close>

theorem chunk_stream_roundtrip:
  assumes "\<forall>c. loads (dumps c) = Some c" and "\<forall>x. length (H x) = 64"
    and "cs \<noteq> []" and "\<forall>c \<in> set cs. c \<noteq> []"
  shows "\<exists>st. map_of (chunk_table (cmd_chunks loads H inst
                                     (fst (upload_loop dumps H ''initial'' cs))))
                 (snd (upload_loop dumps H ''initial'' cs)) = Some st
            \<and> map_of (staging (cmd_chunks loads H inst
                                 (fst (upload_loop dumps H ''initial'' cs))))
                 (cs_fd st) = Some (concat cs)
            \<and> H (cs_hasher st) = H (concat cs)"
proof -
  obtain d ds where cs: "cs = d # ds"
    using assms(3) by (cases cs) auto
  let ?c = "\<lparr>last_hash = ''initial'', data = d\<rparr>"
  let ?m = "dumps ?c"
  let ?st1 = "\<lparr>cs_fd = next_fd inst,
               cs_path = path_join (collection_dir inst) (tmp_name (next_fd inst)),
               cs_hasher = d\<rparr>"
  let ?inst1 = "inst\<lparr>chunk_table := dict_set (chunk_table inst) (H ?m) ?st1,
                      staging := fd_write (dict_set (staging inst) (next_fd inst) [])
                                   (next_fd inst) d,
                      next_fd := Suc (next_fd inst)\<rparr>"
  have d: "d \<noteq> []" using assms(4) cs by simp
  have ld: "loads ?m = Some ?c" using assms(1) by blast
  have step: "cmd_chunk loads H inst ?m = (None, ?inst1)"
    using cmd_chunk_initial[where loads = loads and v = ?m and c = ?c and inst = inst and H = H] ld
    by simp
  have a: "length (H ?m) = 64" using assms(2) by blast
  have b: "map_of (chunk_table ?inst1) (H ?m) = Some ?st1"
    by (simp add: map_of_dict_set)
  have c: "map_of (staging ?inst1) (cs_fd ?st1) = Some ([] @ d)"
    by (simp add: map_of_fd_write map_of_dict_set)
  have rest: "\<forall>c \<in> set ds. c \<noteq> []" using assms(4) cs by simp
  from chunk_stream_continue[OF assms(1) assms(2) rest a b c]
  show ?thesis using d step cs by (auto simp: Let_def)
qed

lemma ex_loads_dumps_aux:
  "ex_loads (concat (map (\<lambda>x. [CHR ''a'', x]) l) @ CHR ''b'' # d) = Some \<lparr>last_hash = l, data = d\<rparr>"
proof (induction l)
  case Nil
  then show ?case by (cases d) simp_all
next
  case (Cons x l)
  then show ?case by simp
qed

lemma ex_loads_dumps: "\<forall>c. ex_loads (ex_dumps c) = Some c"
  using ex_loads_dumps_aux by (simp add: ex_dumps_def)

lemma ex_H_length: "\<forall>x. length (ex_H x) = 64"
  by (simp add: ex_H_def min_def)

theorem chunk_stream_roundtrip_witness:
  "\<exists>st. map_of (chunk_table (cmd_chunks ex_loads ex_H ex_inst
                                (fst (upload_loop ex_dumps ex_H ''initial'' [''ab'', ''cd'', ''ef'']))))
            (snd (upload_loop ex_dumps ex_H ''initial'' [''ab'', ''cd'', ''ef''])) = Some st
       \<and> map_of (staging (cmd_chunks ex_loads ex_H ex_inst
                            (fst (upload_loop ex_dumps ex_H ''initial'' [''ab'', ''cd'', ''ef'']))))
            (cs_fd st) = Some ''abcdef''
       \<and> ex_H (cs_hasher st) = ex_H ''abcdef''"
proof -
  have ne: "[''ab'', ''cd'', ''ef''] \<noteq> ([] :: bytes list)" by simp
  have each: "\<forall>c \<in> set [''ab'', ''cd'', ''ef'']. c \<noteq> []" by simp
  show ?thesis
    using chunk_stream_roundtrip [OF ex_loads_dumps ex_H_length ne each, of ex_inst]
    by simp
qed


subsection \<open>Artifact records\<close>

lemma current_artifactD:
  assumes "current_artifact inst p t n = Some a"
  obtains proj run ad where "map_of (projects inst) p = Some proj" and "current proj = Some run"
    and "map_of (if t = ''tool'' then tool_set run
                 else if t = ''file'' then file_set run else pkg_set run) n = Some ad"
    and "ad < length (arts run)" and "a = arts run ! ad"
  using assms
  by (auto simp: current_artifact_def split: option.splits if_splits)

lemma cmd_artifact_miss_eq:
  assumes "ArtifactMessage_unpack x = Inr x"
    and "am_success x"
    and "map_of (projects inst) (am_project x) = Some proj" and "current proj = Some run"
    and "map_of (if artifact_type x = ''tool'' then tool_set run
                 else if artifact_type x = ''file'' then file_set run else pkg_set run)
           (artifact x) = Some ad"
    and "table_entry inst (am_last_hash x) = None"
  shows "cmd_artifact d inst x =
           (Some (KeyError (am_last_hash x)),
            set_current inst (am_project x) proj
              (artifact_finally ((set_failed (set_bits run ad True False) ad)
                                   \<lparr>artifact_received := True\<rparr>)))"
  using assms
  by (simp add: cmd_artifact_def table_entry_def Let_def)

lemma arts_artifact_finally: "arts (artifact_finally b) = arts b"
  by (simp add: artifact_finally_def store_status_def)

lemma sets_artifact_finally:
  "tool_set (artifact_finally b) = tool_set b" "file_set (artifact_finally b) = file_set b"
  "pkg_set (artifact_finally b) = pkg_set b"
  by (simp_all add: artifact_finally_def store_status_def)

lemma current_artifact_set_current:
  "current_artifact (set_current inst p proj run) p t n =
     (case map_of (if t = ''tool'' then tool_set run
                   else if t = ''file'' then file_set run else pkg_set run) n of
        None \<Rightarrow> None
      | Some a \<Rightarrow> if a < length (arts run) then Some (arts run ! a) else None)"
  by (simp add: current_artifact_def set_current_def map_of_dict_set)

text \<open>
  C4, as the code has it. A valid \<^verbatim>\<open>ArtifactMessage\<close> with \<^verbatim>\<open>success = true\<close> arrives for an
  artifact that the project's current build knows, and its \<^verbatim>\<open>last_hash\<close> (absent or not)
  has no entry in the chunk table. Then \<^verbatim>\<open>cmd_artifact\<close> raises the \<^verbatim>\<open>KeyError\<close> of that
  key, which the intake loop logs; the artifact is left \<^verbatim>\<open>received = true\<close> and
  \<^verbatim>\<open>failed = true\<close>; the build's event \<^verbatim>\<open>artifact_received\<close> is set, which wakes the
  solver; the chunk table is as before.
\<close>

theorem cmd_artifact_miss:
  assumes "ArtifactMessage_unpack x = Inr x"
    and "am_success x"
    and "current_artifact inst (am_project x) (artifact_type x) (artifact x) = Some a"
    and "table_entry inst (am_last_hash x) = None"
  shows "\<exists>a' run'. fst (cmd_artifact d inst x) = Some (KeyError (am_last_hash x))
            \<and> current_artifact (snd (cmd_artifact d inst x))
                 (am_project x) (artifact_type x) (artifact x) = Some a'
            \<and> received a' \<and> failed a'
            \<and> kind a' = kind a \<and> name a' = name a
            \<and> current_build (snd (cmd_artifact d inst x)) (am_project x) = Some run'
            \<and> artifact_received run'
            \<and> chunk_table (snd (cmd_artifact d inst x)) = chunk_table inst
            \<and> staging (snd (cmd_artifact d inst x)) = staging inst
            \<and> logged (intake_artifact d inst x) = logged inst @ [KeyError (am_last_hash x)]"
proof -
  from assms(3) obtain proj run ad where
    p: "map_of (projects inst) (am_project x) = Some proj" and c: "current proj = Some run"
    and m: "map_of (if artifact_type x = ''tool'' then tool_set run
                 else if artifact_type x = ''file'' then file_set run else pkg_set run)
           (artifact x) = Some ad"
    and l: "ad < length (arts run)" and aa: "a = arts run ! ad"
    by (rule current_artifactD)
  note eq = cmd_artifact_miss_eq [OF assms(1,2) p c m assms(4), of d]
  let ?run = "artifact_finally ((set_failed (set_bits run ad True False) ad)
                                   \<lparr>artifact_received := True\<rparr>)"
  have sets: "tool_set ?run = tool_set run" "file_set ?run = file_set run" "pkg_set ?run = pkg_set run"
    by (simp_all add: sets_artifact_finally set_failed_def set_bits_def)
  have a: "arts ?run = (arts run)[ad := (arts run ! ad)\<lparr>received := True, failed := True\<rparr>]"
    using l by (simp add: arts_artifact_finally set_failed_def set_bits_def)
  have ca: "current_artifact (set_current inst (am_project x) proj ?run)
              (am_project x) (artifact_type x) (artifact x)
            = Some ((arts run ! ad)\<lparr>received := True, failed := True\<rparr>)"
    unfolding current_artifact_set_current sets using m l a by simp
  have cb: "current_build (set_current inst (am_project x) proj ?run) (am_project x) = Some ?run"
    by (simp add: current_build_def set_current_def map_of_dict_set)
  have ar: "artifact_received ?run"
    by (simp add: artifact_finally_def store_status_def)
  show ?thesis
    using eq ca cb ar aa by (simp add: intake_artifact_def set_current_def)
qed

lemma ex_inst_pkg_artifact: "current_artifact ex_inst_pkg ''demo'' ''package'' ''p'' = Some ex_pkg"
  by (simp add: current_artifact_def ex_inst_pkg_def ex_inst_def ex_project_def ex_build_def)

lemma ex_artifact_message_valid: "ArtifactMessage_unpack ex_artifact_message = Inr ex_artifact_message"
  by (simp add: ArtifactMessage_unpack_def ex_artifact_message_def is_blake2b_digest_def)

lemma ex_artifact_message_miss: "table_entry ex_inst_pkg (am_last_hash ex_artifact_message) = None"
  by (simp add: table_entry_def ex_inst_pkg_def ex_inst_def ex_artifact_message_def)

theorem cmd_artifact_miss_witness:
  "\<exists>a' run'. fst (cmd_artifact True ex_inst_pkg ex_artifact_message)
                = Some (KeyError (Some (replicate 64 (CHR ''z''))))
      \<and> current_artifact (snd (cmd_artifact True ex_inst_pkg ex_artifact_message))
           ''demo'' ''package'' ''p'' = Some a'
      \<and> received a' \<and> failed a'
      \<and> current_build (snd (cmd_artifact True ex_inst_pkg ex_artifact_message)) ''demo'' = Some run'
      \<and> artifact_received run'"
proof -
  have s: "am_success ex_artifact_message" by (simp add: ex_artifact_message_def)
  have f: "am_project ex_artifact_message = ''demo''" "artifact_type ex_artifact_message = ''package''"
    "artifact ex_artifact_message = ''p''"
    "am_last_hash ex_artifact_message = Some (replicate 64 (CHR ''z''))"
    by (simp_all add: ex_artifact_message_def)
  show ?thesis
    using cmd_artifact_miss [OF ex_artifact_message_valid s, of ex_inst_pkg ex_pkg True] ex_inst_pkg_artifact ex_artifact_message_miss f
    by auto
qed

text \<open>
  C4, as the claim has it, fails: the package \<open>p\<close> of the example is neither received nor
  failed before the record arrives, and both afterwards; the intake loop has logged the
  \<^verbatim>\<open>KeyError\<close>.
\<close>

theorem cmd_artifact_miss_counterexample:
  "table_entry ex_inst_pkg (am_last_hash ex_artifact_message) = None
   \<and> am_success ex_artifact_message
   \<and> map_option received (current_artifact ex_inst_pkg ''demo'' ''package'' ''p'') = Some False
   \<and> map_option failed (current_artifact ex_inst_pkg ''demo'' ''package'' ''p'') = Some False
   \<and> map_option received (current_artifact (intake_artifact True ex_inst_pkg ex_artifact_message)
        ''demo'' ''package'' ''p'') = Some True
   \<and> map_option failed (current_artifact (intake_artifact True ex_inst_pkg ex_artifact_message)
        ''demo'' ''package'' ''p'') = Some True
   \<and> logged (intake_artifact True ex_inst_pkg ex_artifact_message)
       = [KeyError (Some (replicate 64 (CHR ''z'')))]"
  by (simp add: table_entry_def ex_artifact_message_def ex_inst_pkg_def ex_inst_def
      ex_project_def ex_build_def ex_pkg_def ex_job_def Job_def
      current_artifact_def intake_artifact_def cmd_artifact_def ArtifactMessage_unpack_def
      is_blake2b_digest_def set_current_def artifact_finally_def store_status_def
      terminating_state_def set_bits_def set_failed_def Let_def)


subsection \<open>Empty artifact files\<close>

lemma read_chunks_empty: "read_chunks n [] = []"
  by (simp add: read_chunks.simps)

lemma ArtifactMessage_unpack_accepts:
  "ArtifactMessage_unpack x = Inr y \<Longrightarrow>
     am_last_hash x = None \<or> (\<exists>h. am_last_hash x = Some h \<and> length h = 64)"
  by (auto simp: ArtifactMessage_unpack_def is_blake2b_digest_def split: if_splits option.splits)

text \<open>
  C10. For a file of length zero, \<^verbatim>\<open>upload\<close> sends no chunk and one \<^verbatim>\<open>ArtifactMessage\<close>
  with \<^verbatim>\<open>success = true\<close> and \<^verbatim>\<open>last_hash = b"initial"\<close>. The validator of
  \<^verbatim>\<open>ArtifactMessage\<close> accepts a message only if its \<^verbatim>\<open>last_hash\<close> is absent or null or
  has 64 bytes; so it rejects this one, and \<^verbatim>\<open>cmd_artifact\<close> raises the validation error
  and leaves the coordinator as it was, whatever its state: nothing is deposited.
\<close>

theorem upload_empty_file:
  assumes "map_of fs fpath = Some []"
  shows "upload dumps H fs proj knd nm fpath =
           [Artifact_frame \<lparr>am_project = proj, artifact_type = knd, artifact = nm,
                            am_success = True, filename = Some (basename fpath),
                            am_last_hash = Some ''initial''\<rparr>]
       \<and> (\<forall>x y. ArtifactMessage_unpack x = Inr y \<longrightarrow>
             am_last_hash x = None \<or> (\<exists>h. am_last_hash x = Some h \<and> length h = 64))
       \<and> (\<exists>e. ArtifactMessage_unpack
                  \<lparr>am_project = proj, artifact_type = knd, artifact = nm,
                   am_success = True, filename = Some (basename fpath),
                   am_last_hash = Some ''initial''\<rparr> = Inl (ValidationError e))
       \<and> (\<forall>d inst. \<exists>e. cmd_artifact d inst
                  \<lparr>am_project = proj, artifact_type = knd, artifact = nm,
                   am_success = True, filename = Some (basename fpath),
                   am_last_hash = Some ''initial''\<rparr> = (Some (ValidationError e), inst))"
proof -
  let ?x = "\<lparr>am_project = proj, artifact_type = knd, artifact = nm,
                            am_success = True, filename = Some (basename fpath),
                            am_last_hash = Some ''initial''\<rparr>"
  have u: "upload dumps H fs proj knd nm fpath = [Artifact_frame ?x]"
    using assms by (simp add: upload_def read_chunks_empty)
  have v: "\<exists>e. ArtifactMessage_unpack ?x = Inl (ValidationError e)"
    by (simp add: ArtifactMessage_unpack_def is_blake2b_digest_def)
  then have c: "\<exists>e. cmd_artifact d inst ?x = (Some (ValidationError e), inst)" for d inst
    by (auto simp: cmd_artifact_def)
  show ?thesis
    using u v c ArtifactMessage_unpack_accepts by auto
qed

theorem upload_empty_file_witness:
  "upload ex_dumps ex_H [(''/b/empty.tar.gz'', [])] ''demo'' ''tool'' ''t'' ''/b/empty.tar.gz'' =
     [Artifact_frame \<lparr>am_project = ''demo'', artifact_type = ''tool'', artifact = ''t'',
                      am_success = True, filename = Some ''empty.tar.gz'',
                      am_last_hash = Some ''initial''\<rparr>]
   \<and> cmd_artifact True ex_inst
        \<lparr>am_project = ''demo'', artifact_type = ''tool'', artifact = ''t'',
         am_success = True, filename = Some ''empty.tar.gz'',
         am_last_hash = Some ''initial''\<rparr> = (Some (ValidationError ''last_hash''), ex_inst)"
proof -
  have h: "map_of [(''/b/empty.tar.gz'', [])] ''/b/empty.tar.gz'' = Some ([] :: bytes)" by simp
  have b: "basename ''/b/empty.tar.gz'' = ''empty.tar.gz''" by (simp add: basename_def)
  have v: "ArtifactMessage_unpack \<lparr>am_project = ''demo'', artifact_type = ''tool'', artifact = ''t'',
         am_success = True, filename = Some ''empty.tar.gz'',
         am_last_hash = Some ''initial''\<rparr> = Inl (ValidationError ''last_hash'')"
    by (simp add: ArtifactMessage_unpack_def is_blake2b_digest_def)
  show ?thesis
    using upload_empty_file [OF h, of ex_dumps ex_H "''demo''" "''tool''" "''t''"] b v
    by (simp add: cmd_artifact_def)
qed


subsection \<open>Graph construction\<close>

lemma first_desc_Nil: "first_desc [] k n = None"
  by (simp add: first_desc_def)

lemma first_desc_append:
  "first_desc (ds @ es) k n =
     (case first_desc ds k n of Some d \<Rightarrow> Some d | None \<Rightarrow> first_desc es k n)"
  by (simp add: first_desc_def map_add_def split: option.splits)

lemma first_desc_single:
  "first_desc [(k', x)] k n = (if k' = k \<and> d_name x = n then Some x else None)"
  by (simp add: first_desc_def)

lemma first_desc_snoc_iff:
  "first_desc (ds @ [(k', x)]) k n = Some d \<longleftrightarrow>
     first_desc ds k n = Some d
     \<or> (first_desc ds k n = None \<and> k' = k \<and> d_name x = n \<and> d = x)"
  by (auto simp: first_desc_append first_desc_single split: option.splits)

lemma concrete_archs_iff:
  "s \<in> concrete_archs ds \<longleftrightarrow>
     (\<exists>k n d. first_desc ds k n = Some d \<and> d_architecture d = s \<and> s \<noteq> ''noarch'')"
  unfolding concrete_archs_def by auto

lemma concrete_archs_Nil: "concrete_archs [] = {}"
  by (auto simp: concrete_archs_iff first_desc_Nil)

lemma concrete_archs_mono: "concrete_archs ds \<subseteq> concrete_archs (ds @ es)"
proof
  fix s assume "s \<in> concrete_archs ds"
  then obtain k n d where "first_desc ds k n = Some d" "d_architecture d = s" "s \<noteq> ''noarch''"
    unfolding concrete_archs_iff by blast
  then have "first_desc (ds @ es) k n = Some d \<and> d_architecture d = s \<and> s \<noteq> ''noarch''"
    by (simp add: first_desc_append)
  then show "s \<in> concrete_archs (ds @ es)"
    unfolding concrete_archs_iff by blast
qed

lemma multiarch_mono: "multiarch ds \<Longrightarrow> multiarch (ds @ es)"
  using concrete_archs_mono[of ds es] unfolding multiarch_def by blast

lemma concrete_archs_snoc_known:
  assumes "first_desc ds k (d_name x) = Some d"
  shows "concrete_archs (ds @ [(k, x)]) = concrete_archs ds"
proof -
  have "first_desc (ds @ [(k, x)]) k' n = Some e \<longleftrightarrow> first_desc ds k' n = Some e" for k' n e
    using assms by (auto simp: first_desc_snoc_iff)
  then show ?thesis
    by (auto simp: concrete_archs_iff)
qed

lemma concrete_archs_snoc_new:
  assumes "first_desc ds k (d_name x) = None"
  shows "concrete_archs (ds @ [(k, x)]) =
     concrete_archs ds \<union> (if d_architecture x \<noteq> ''noarch'' then {d_architecture x} else {})"
proof (rule set_eqI)
  fix s
  have a: "first_desc (ds @ [(k, x)]) k' n = Some e \<longleftrightarrow>
        first_desc ds k' n = Some e \<or> (k' = k \<and> n = d_name x \<and> e = x)" for k' n e
    using assms by (auto simp: first_desc_snoc_iff)
  show "s \<in> concrete_archs (ds @ [(k, x)]) \<longleftrightarrow>
        s \<in> concrete_archs ds \<union> (if d_architecture x \<noteq> ''noarch'' then {d_architecture x} else {})"
    by (auto simp: concrete_archs_iff a split: if_splits)
qed

lemma get_put_aset [simp]:
  "get_aset k (put_aset k d b) = d"
  "k' \<noteq> k \<Longrightarrow> get_aset k' (put_aset k d b) = get_aset k' b"
  "arts (put_aset k d b) = arts b"
  "jobs (put_aset k d b) = jobs b"
  "get_aset k (b\<lparr>arts := xs\<rparr>) = get_aset k b"
  "get_aset k (b\<lparr>jobs := js\<rparr>) = get_aset k b"
  by (cases k; cases k'; simp add: get_aset_def put_aset_def)+

definition sg_inv :: "(Kind \<times> desc) list \<Rightarrow> build \<Rightarrow> arch list \<Rightarrow> bool" where
  "sg_inv ds b as \<longleftrightarrow>
     (\<forall>k n. k \<noteq> FILE \<longrightarrow> first_desc ds k n = None \<longrightarrow> map_of (get_aset k b) n = None)
   \<and> (\<forall>k n d. k \<noteq> FILE \<longrightarrow> first_desc ds k n = Some d \<longrightarrow>
         (\<exists>a. map_of (get_aset k b) n = Some a \<and> a < length (arts b)
              \<and> kind (arts b ! a) = k \<and> name (arts b ! a) = n
              \<and> architecture (arts b ! a) = ArchStr (d_architecture d)))
   \<and> set as = ArchStr ` concrete_archs ds \<and> distinct as
   \<and> (\<forall>s t. s \<in> concrete_archs ds \<longrightarrow> t \<in> concrete_archs ds \<longrightarrow> s = t)
   \<and> (\<forall>a < length (arts b). kind (arts b ! a) \<noteq> FILE \<longrightarrow>
         map_of (get_aset (kind (arts b ! a)) b) (name (arts b ! a)) = Some a)"

lemma sg_inv_not_multiarch: "sg_inv ds b as \<Longrightarrow> \<not> multiarch ds"
  unfolding sg_inv_def multiarch_def by blast

lemma handle_artifact_known:
  assumes inv: "sg_inv ds b as" and k: "k \<noteq> FILE"
    and fd: "first_desc ds k (d_name x) = Some d"
  shows "\<exists>a. handle_artifact k x (b, as, rs) = Inr (b, as, rs @ [a])"
    and "sg_inv (ds @ [(k, x)]) b as"
proof -
  from inv k fd obtain a where a: "map_of (get_aset k b) (d_name x) = Some a"
    and arch: "architecture (arts b ! a) = ArchStr (d_architecture d)"
    unfolding sg_inv_def by blast
  have mem: "d_architecture d \<noteq> ''noarch'' \<Longrightarrow> ArchStr (d_architecture d) \<in> set as"
  proof -
    assume "d_architecture d \<noteq> ''noarch''"
    then have "d_architecture d \<in> concrete_archs ds"
      using fd unfolding concrete_archs_iff by blast
    then show ?thesis using inv unfolding sg_inv_def by blast
  qed
  have "handle_artifact k x (b, as, rs) = Inr (b, as, rs @ [a])"
  proof (cases "d_architecture d = ''noarch''")
    case True
    then show ?thesis using a arch by simp
  next
    case False
    from mem[OF False] have "List.insert (ArchStr (d_architecture d)) as = as"
      by (simp add: List.insert_def)
    then show ?thesis using a arch False mem[OF False] by simp
  qed
  then show "\<exists>a. handle_artifact k x (b, as, rs) = Inr (b, as, rs @ [a])" by blast
  have same: "first_desc (ds @ [(k, x)]) k' n = first_desc ds k' n" for k' n
    using fd by (auto simp: first_desc_append first_desc_single split: option.splits)
  show "sg_inv (ds @ [(k, x)]) b as"
    using inv unfolding sg_inv_def same concrete_archs_snoc_known[OF fd] by blast
qed

definition alloc :: "Kind \<Rightarrow> desc \<Rightarrow> build \<Rightarrow> build" where
  "alloc k x b =
     put_aset k (dict_set (get_aset k b) (d_name x) (length (arts b)))
       (b\<lparr>arts := arts b @ [Artifact k x]\<rparr>)"

lemma alloc_simps [simp]:
  "arts (alloc k x b) = arts b @ [Artifact k x]"
  "get_aset k (alloc k x b) = dict_set (get_aset k b) (d_name x) (length (arts b))"
  "k' \<noteq> k \<Longrightarrow> get_aset k' (alloc k x b) = get_aset k' b"
  by (simp_all add: alloc_def)

lemma Artifact_simps [simp]:
  "kind (Artifact k x) = k" "name (Artifact k x) = d_name x"
  "architecture (Artifact k x) = ArchStr (d_architecture x)"
  by (simp_all add: Artifact_def)

lemma handle_artifact_new_eq:
  assumes "map_of (get_aset k b) (d_name x) = None"
  shows "handle_artifact k x (b, as, rs) =
     (if d_architecture x = ''noarch'' then Inr (alloc k x b, as, rs @ [length (arts b)])
      else if as \<noteq> [] \<and> ArchStr (d_architecture x) \<notin> set as
           then Inl (RuntimeError ''multiarch builds unsupported'')
           else Inr (alloc k x b, List.insert (ArchStr (d_architecture x)) as,
                     rs @ [length (arts b)]))"
  using assms by (simp add: alloc_def)

lemma sg_inv_alloc:
  assumes inv: "sg_inv ds b as" and k: "k \<noteq> FILE"
    and fd: "first_desc ds k (d_name x) = None"
    and as': "set as' = ArchStr ` concrete_archs (ds @ [(k, x)])" and dist: "distinct as'"
    and one: "\<forall>s t. s \<in> concrete_archs (ds @ [(k, x)]) \<longrightarrow> t \<in> concrete_archs (ds @ [(k, x)]) \<longrightarrow> s = t"
  shows "sg_inv (ds @ [(k, x)]) (alloc k x b) as'"
proof -
  have none: "map_of (get_aset k b) (d_name x) = None"
    using inv k fd unfolding sg_inv_def by blast
  have i1: "map_of (get_aset k' (alloc k x b)) n = None"
    if "k' \<noteq> FILE" "first_desc (ds @ [(k, x)]) k' n = None" for k' n
  proof -
    from that(2) have o: "first_desc ds k' n = None" and ne: "\<not> (k = k' \<and> d_name x = n)"
      by (auto simp: first_desc_append first_desc_single split: option.splits if_splits)
    from inv that(1) o have m: "map_of (get_aset k' b) n = None"
      unfolding sg_inv_def by blast
    show ?thesis
    proof (cases "k' = k")
      case True
      then show ?thesis using m ne by (simp add: map_of_dict_set)
    next
      case False
      then show ?thesis using m by simp
    qed
  qed
  have i2: "\<exists>a. map_of (get_aset k' (alloc k x b)) n = Some a \<and> a < length (arts (alloc k x b))
              \<and> kind (arts (alloc k x b) ! a) = k' \<and> name (arts (alloc k x b) ! a) = n
              \<and> architecture (arts (alloc k x b) ! a) = ArchStr (d_architecture d)"
    if "k' \<noteq> FILE" "first_desc (ds @ [(k, x)]) k' n = Some d" for k' n d
  proof -
    from that(2) consider (old) "first_desc ds k' n = Some d"
      | (new) "first_desc ds k' n = None" "k = k'" "d_name x = n" "d = x"
      by (auto simp: first_desc_snoc_iff)
    then show ?thesis
    proof cases
      case old
      with inv that(1) obtain a where a: "map_of (get_aset k' b) n = Some a" "a < length (arts b)"
        "kind (arts b ! a) = k'" "name (arts b ! a) = n"
        "architecture (arts b ! a) = ArchStr (d_architecture d)"
        unfolding sg_inv_def by blast
      have ne: "\<not> (k' = k \<and> n = d_name x)" using old fd by auto
      have "map_of (get_aset k' (alloc k x b)) n = Some a"
      proof (cases "k' = k")
        case True
        then show ?thesis using a(1) ne by (simp add: map_of_dict_set)
      next
        case False
        then show ?thesis using a(1) by simp
      qed
      then show ?thesis using a by (simp add: nth_append)
    next
      case new
      then show ?thesis by (simp add: map_of_dict_set)
    qed
  qed
  have i5: "map_of (get_aset (kind (arts (alloc k x b) ! a)) (alloc k x b))
              (name (arts (alloc k x b) ! a)) = Some a"
    if "a < length (arts (alloc k x b))" "kind (arts (alloc k x b) ! a) \<noteq> FILE" for a
  proof (cases "a < length (arts b)")
    case True
    then have e: "arts (alloc k x b) ! a = arts b ! a" by (simp add: nth_append)
    from inv True that(2) e
    have m: "map_of (get_aset (kind (arts b ! a)) b) (name (arts b ! a)) = Some a"
      unfolding sg_inv_def by simp
    show ?thesis
    proof (cases "kind (arts b ! a) = k")
      case True
      then have "name (arts b ! a) \<noteq> d_name x" using m none by auto
      then show ?thesis using m True e by (simp add: map_of_dict_set)
    next
      case False
      then show ?thesis using m e by simp
    qed
  next
    case False
    then have "a = length (arts b)" using that(1) by simp
    then show ?thesis by (simp add: map_of_dict_set)
  qed
  show ?thesis
    unfolding sg_inv_def using i1 i2 i5 as' dist one by blast
qed

declare handle_artifact.simps [simp del]

definition multiarch_error :: error where
  "multiarch_error = RuntimeError ''multiarch builds unsupported''"

lemma handle_artifact_inv:
  assumes inv: "sg_inv ds b as" and k: "k \<noteq> FILE"
  shows "case handle_artifact k x (b, as, rs) of
           Inl e \<Rightarrow> e = multiarch_error \<and> multiarch (ds @ [(k, x)])
         | Inr st \<Rightarrow> sg_inv (ds @ [(k, x)]) (fst st) (fst (snd st))"
proof (cases "first_desc ds k (d_name x)")
  case (Some d)
  from handle_artifact_known(1)[OF inv k Some, where rs = rs] handle_artifact_known(2)[OF inv k Some]
  show ?thesis by auto
next
  case None
  have none: "map_of (get_aset k b) (d_name x) = None"
    using inv k None unfolding sg_inv_def by blast
  note eq = handle_artifact_new_eq[OF none, of as rs]
  note ca = concrete_archs_snoc_new[OF None]
  from inv have dist: "distinct as" unfolding sg_inv_def by blast
  from inv have sas: "set as = ArchStr ` concrete_archs ds"
    and one: "\<And>s t. s \<in> concrete_archs ds \<Longrightarrow> t \<in> concrete_archs ds \<Longrightarrow> s = t"
    unfolding sg_inv_def by blast+
  show ?thesis
  proof (cases "d_architecture x = ''noarch''")
    case True
    have "sg_inv (ds @ [(k, x)]) (alloc k x b) as"
      by (rule sg_inv_alloc[OF inv k None _ dist]) (use True ca sas one in auto)
    then show ?thesis using eq True by simp
  next
    case False
    show ?thesis
    proof (cases "as \<noteq> [] \<and> ArchStr (d_architecture x) \<notin> set as")
      case True
      then have "hd as \<in> set as" by simp
      then obtain c where "c \<in> concrete_archs ds" "hd as = ArchStr c"
        using sas by auto
      with True \<open>hd as \<in> set as\<close> have c: "c \<in> concrete_archs ds" "c \<noteq> d_architecture x"
        by auto
      then have "multiarch (ds @ [(k, x)])"
        unfolding multiarch_def ca using False by auto
      then show ?thesis using eq True False by (simp add: multiarch_error_def)
    next
      case F2: False
      have sub: "concrete_archs ds \<subseteq> {d_architecture x}"
      proof
        fix c assume c: "c \<in> concrete_archs ds"
        then have "ArchStr c \<in> set as" using sas by blast
        then have "as \<noteq> []" by auto
        with F2 have "ArchStr (d_architecture x) \<in> set as" by blast
        then have "d_architecture x \<in> concrete_archs ds" using sas by auto
        with c one show "c \<in> {d_architecture x}" by blast
      qed
      have ca2: "concrete_archs (ds @ [(k, x)]) = {d_architecture x}"
        using ca False sub by auto
      have as2: "set (List.insert (ArchStr (d_architecture x)) as)
                 = ArchStr ` concrete_archs (ds @ [(k, x)])"
        using sas sub unfolding ca2 by auto
      have "sg_inv (ds @ [(k, x)]) (alloc k x b) (List.insert (ArchStr (d_architecture x)) as)"
        by (rule sg_inv_alloc[OF inv k None as2]) (simp_all add: ca2 dist)
      then show ?thesis using eq False F2 by simp
    qed
  qed
qed

lemma handle_artifacts_inv:
  assumes "sg_inv ds b as" and "k \<noteq> FILE"
  shows "case handle_artifacts k xs (b, as, rs) of
           Inl e \<Rightarrow> e = multiarch_error \<and> multiarch (ds @ map (Pair k) xs)
         | Inr st \<Rightarrow> sg_inv (ds @ map (Pair k) xs) (fst st) (fst (snd st))"
  using assms
proof (induction xs arbitrary: ds b as rs)
  case Nil
  then show ?case by simp
next
  case (Cons x xs)
  note h = handle_artifact_inv[OF Cons.prems, of x rs]
  show ?case
  proof (cases "handle_artifact k x (b, as, rs)")
    case (Inl e)
    with h have "e = multiarch_error" "multiarch (ds @ [(k, x)])" by auto
    then have "multiarch ((ds @ [(k, x)]) @ map (Pair k) xs)" using multiarch_mono by blast
    then show ?thesis using Inl \<open>e = multiarch_error\<close> by simp
  next
    case (Inr st)
    obtain b1 as1 rs1 where st: "st = (b1, as1, rs1)" by (cases st) auto
    with h Inr have "sg_inv (ds @ [(k, x)]) b1 as1" by simp
    note ih = Cons.IH[OF this Cons.prems(2), of rs1]
    have e: "(ds @ [(k, x)]) @ map (Pair k) xs = ds @ map (Pair k) (x # xs)" by simp
    show ?thesis using ih Inr st unfolding e by simp
  qed
qed

definition ext :: "build \<Rightarrow> build \<Rightarrow> bool" where
  "ext b b' \<longleftrightarrow>
     tool_set b' = tool_set b \<and> pkg_set b' = pkg_set b
   \<and> length (arts b) \<le> length (arts b')
   \<and> (\<forall>a < length (arts b). kind (arts b' ! a) = kind (arts b ! a)
         \<and> name (arts b' ! a) = name (arts b ! a)
         \<and> architecture (arts b' ! a) = architecture (arts b ! a))
   \<and> (\<forall>a. length (arts b) \<le> a \<longrightarrow> a < length (arts b') \<longrightarrow> kind (arts b' ! a) = FILE)"

lemma ext_refl: "ext b b"
  by (simp add: ext_def)

lemma ext_trans:
  assumes "ext b b1" and "ext b1 b2"
  shows "ext b b2"
proof -
  have l: "length (arts b) \<le> length (arts b1)" "length (arts b1) \<le> length (arts b2)"
    using assms unfolding ext_def by blast+
  have old: "kind (arts b2 ! a) = kind (arts b ! a) \<and> name (arts b2 ! a) = name (arts b ! a)
             \<and> architecture (arts b2 ! a) = architecture (arts b ! a)"
    if "a < length (arts b)" for a
  proof -
    from that l have "a < length (arts b1)" by simp
    then show ?thesis using assms that unfolding ext_def by simp
  qed
  have new: "kind (arts b2 ! a) = FILE" if "length (arts b) \<le> a" "a < length (arts b2)" for a
  proof (cases "a < length (arts b1)")
    case True
    then have "kind (arts b1 ! a) = FILE" using assms(1) that(1) unfolding ext_def by blast
    then show ?thesis using assms(2) True unfolding ext_def by simp
  next
    case False
    then show ?thesis using assms(2) that(2) unfolding ext_def by simp
  qed
  show ?thesis
    unfolding ext_def using assms l old new unfolding ext_def by auto
qed

lemma get_aset_ext: "ext b b' \<Longrightarrow> k \<noteq> FILE \<Longrightarrow> get_aset k b' = get_aset k b"
  by (cases k) (simp_all add: ext_def get_aset_def)

lemma sg_inv_ext:
  assumes inv: "sg_inv ds b as" and e: "ext b b'"
  shows "sg_inv ds b' as"
proof -
  have i2: "\<exists>a. map_of (get_aset k b') n = Some a \<and> a < length (arts b')
              \<and> kind (arts b' ! a) = k \<and> name (arts b' ! a) = n
              \<and> architecture (arts b' ! a) = ArchStr (d_architecture d)"
    if "k \<noteq> FILE" "first_desc ds k n = Some d" for k n d
  proof -
    from inv that obtain a where "map_of (get_aset k b) n = Some a" "a < length (arts b)"
        "kind (arts b ! a) = k" "name (arts b ! a) = n"
        "architecture (arts b ! a) = ArchStr (d_architecture d)"
      unfolding sg_inv_def by blast
    then show ?thesis using e get_aset_ext[OF e that(1)] unfolding ext_def by auto
  qed
  have i5: "map_of (get_aset (kind (arts b' ! a)) b') (name (arts b' ! a)) = Some a"
    if "a < length (arts b')" "kind (arts b' ! a) \<noteq> FILE" for a
  proof -
    have l: "a < length (arts b)" using that e unfolding ext_def by (meson not_le_imp_less)
    then have "kind (arts b ! a) \<noteq> FILE" using that(2) e unfolding ext_def by auto
    with inv l have "map_of (get_aset (kind (arts b ! a)) b) (name (arts b ! a)) = Some a"
      unfolding sg_inv_def by blast
    then show ?thesis using e l that(2) get_aset_ext[OF e that(2)] unfolding ext_def by auto
  qed
  have i1: "map_of (get_aset k b') n = None" if "k \<noteq> FILE" "first_desc ds k n = None" for k n
    using inv that get_aset_ext[OF e that(1)] unfolding sg_inv_def by auto
  show ?thesis
    unfolding sg_inv_def using i1 i2 i5 inv unfolding sg_inv_def by blast
qed

lemma ext_add_files: "ext b (fst (add_files fs (b, ps)))"
proof (induction fs arbitrary: b ps)
  case Nil
  then show ?case by (simp add: ext_refl)
next
  case (Cons f fs)
  let ?b1 = "b\<lparr>arts := arts b @ [\<lparr>kind = FILE, name = f, version = None,
                               architecture = ArchNone, received = False, failed = False\<rparr>],
          file_set := dict_set (file_set b) f (length (arts b))\<rparr>"
  have "ext b ?b1"
    by (auto simp: ext_def nth_append)
  from ext_trans[OF this Cons.IH[of ?b1 "ps @ [length (arts b)]"]]
  show ?case by simp
qed

lemma ext_set_bits: "ext b (set_bits b a r f)"
  by (cases "a < length (arts b)") (auto simp: ext_def set_bits_def nth_list_update)

lemma ext_mark_up2date: "ext b (mark_up2date ps b)"
proof (induction ps arbitrary: b)
  case Nil
  then show ?case by (simp add: ext_refl)
next
  case (Cons a ps)
  from ext_trans[OF ext_set_bits Cons.IH] show ?case by simp
qed

lemma ext_jobs: "ext b (b\<lparr>jobs := js\<rparr>)"
  by (simp add: ext_def)

definition caps_error :: error where
  "caps_error = KeyError (Some ''capabilities'')"

lemma multiarch_error_neq [simp]: "multiarch_error \<noteq> caps_error" "caps_error \<noteq> multiarch_error"
  by (simp_all add: multiarch_error_def caps_error_def)

lemma error_simps [simp]:
  "RuntimeError ''multiarch builds unsupported'' \<noteq> caps_error"
  "KeyError (Some ''capabilities'') \<noteq> multiarch_error"
  "ValidationError v \<noteq> caps_error" "ValidationError v \<noteq> multiarch_error"
  by (simp_all add: multiarch_error_def caps_error_def)

lemma set_graph_job_nocaps:
  "i_capabilities (snd ji) = None \<Longrightarrow> set_graph_job ji st = Inl caps_error"
  by (simp add: set_graph_job_def caps_error_def)

lemma set_graph_job_inv:
  assumes inv: "sg_inv ds b as" and caps: "i_capabilities (snd ji) = Some cp"
  shows "case set_graph_job ji (b, as) of
           Inl e \<Rightarrow> e = multiarch_error \<and> multiarch (ds @ job_descs (snd ji))
         | Inr st \<Rightarrow> sg_inv (ds @ job_descs (snd ji)) (fst st) (snd st)"
proof -
  let ?i = "snd ji"
  let ?d1 = "ds @ map (Pair TOOL) (needed_tools ?i)"
  let ?d2 = "?d1 @ map (Pair PACKAGE) (needed_pkgs ?i)"
  let ?d3 = "?d2 @ map (Pair TOOL) (products_tools ?i)"
  let ?d4 = "?d3 @ map (Pair PACKAGE) (products_pkgs ?i)"
  have d4: "?d4 = ds @ job_descs ?i" by (simp add: job_descs_def)
  have m1: "multiarch ?d1 \<Longrightarrow> multiarch (ds @ job_descs ?i)"
    using multiarch_mono[of ?d1 "map (Pair PACKAGE) (needed_pkgs ?i) @ map (Pair TOOL) (products_tools ?i)
       @ map (Pair PACKAGE) (products_pkgs ?i)"] by (simp add: job_descs_def)
  have m2: "multiarch ?d2 \<Longrightarrow> multiarch (ds @ job_descs ?i)"
    using multiarch_mono[of ?d2 "map (Pair TOOL) (products_tools ?i)
       @ map (Pair PACKAGE) (products_pkgs ?i)"] by (simp add: job_descs_def)
  have m3: "multiarch ?d3 \<Longrightarrow> multiarch (ds @ job_descs ?i)"
    using multiarch_mono[of ?d3 "map (Pair PACKAGE) (products_pkgs ?i)"] by (simp add: job_descs_def)
  note h1 = handle_artifacts_inv[OF inv, of TOOL "needed_tools ?i" "[]"]
  show ?thesis
  proof (cases "handle_artifacts TOOL (needed_tools ?i) (b, as, [])")
    case (Inl e)
    then show ?thesis using h1 m1 caps by (simp add: set_graph_job_def)
  next
    case (Inr st1)
    obtain b1 as1 rs1 where st1: "st1 = (b1, as1, rs1)" by (cases st1) auto
    have inv1: "sg_inv ?d1 b1 as1" using h1 Inr st1 by simp
    note h2 = handle_artifacts_inv[OF inv1, of PACKAGE "needed_pkgs ?i" rs1]
    show ?thesis
    proof (cases "handle_artifacts PACKAGE (needed_pkgs ?i) (b1, as1, rs1)")
      case (Inl e)
      then show ?thesis using h2 m2 Inr st1 caps by (simp add: set_graph_job_def)
    next
      case Inr2: (Inr st2)
      obtain b2 as2 rs2 where st2: "st2 = (b2, as2, rs2)" by (cases st2) auto
      have inv2: "sg_inv ?d2 b2 as2" using h2 Inr2 st2 by simp
      note h3 = handle_artifacts_inv[OF inv2, of TOOL "products_tools ?i" "[]"]
      show ?thesis
      proof (cases "handle_artifacts TOOL (products_tools ?i) (b2, as2, [])")
        case (Inl e)
        then show ?thesis using h3 m3 Inr st1 Inr2 st2 caps by (simp add: set_graph_job_def)
      next
        case Inr3: (Inr st3)
        obtain b3 as3 rs3 where st3: "st3 = (b3, as3, rs3)" by (cases st3) auto
        have inv3: "sg_inv ?d3 b3 as3" using h3 Inr3 st3 by simp
        note h4 = handle_artifacts_inv[OF inv3, of PACKAGE "products_pkgs ?i" rs3]
        show ?thesis
        proof (cases "handle_artifacts PACKAGE (products_pkgs ?i) (b3, as3, rs3)")
          case (Inl e)
          then show ?thesis using h4 Inr st1 Inr2 st2 Inr3 st3 caps unfolding d4
            by (simp add: set_graph_job_def)
        next
          case Inr4: (Inr st4)
          obtain b4 as4 rs4 where st4: "st4 = (b4, as4, rs4)" by (cases st4) auto
          have inv4: "sg_inv (ds @ job_descs ?i) b4 as4" using h4 Inr4 st4 unfolding d4 by simp
          obtain b5 ps5 where af: "add_files (products_files ?i) (b4, rs4) = (b5, ps5)"
            by (cases "add_files (products_files ?i) (b4, rs4)") auto
          have e5: "ext b4 b5" using ext_add_files[of b4 "products_files ?i" rs4] af by simp
          let ?b6 = "if up2date ?i then mark_up2date ps5 b5 else b5"
          have e6: "ext b5 ?b6" by (simp add: ext_refl ext_mark_up2date)
          have e7: "ext b4 (?b6\<lparr>jobs := js\<rparr>)" for js
            using ext_trans[OF ext_trans[OF e5 e6] ext_jobs] .
          let ?jv = "(Job (i_unstable ?i) cp)\<lparr>deps := rs2, products := ps5\<rparr>"
          let ?jv1 = "if up2date ?i then ?jv\<lparr>status := UP_TO_DATE\<rparr> else ?jv"
          obtain js where js: "js = dict_set (jobs ?b6) (fst ji) ?jv1" by blast
          have "set_graph_job ji (b, as) = Inr (?b6\<lparr>jobs := js\<rparr>, as4)"
            using Inr st1 Inr2 st2 Inr3 st3 Inr4 st4 af js caps
            by (simp add: set_graph_job_def Let_def)
          then show ?thesis using sg_inv_ext[OF inv4 e7[of js]] by simp
        qed
      qed
    qed
  qed
qed

lemma set_graph_jobs_inv:
  assumes "sg_inv ds b as" and "\<forall>ji \<in> set g. i_capabilities (snd ji) \<noteq> None"
  shows "case set_graph_jobs g (b, as) of
           Inl e \<Rightarrow> e = multiarch_error \<and> multiarch (ds @ graph_descs g)
         | Inr st \<Rightarrow> sg_inv (ds @ graph_descs g) (fst st) (snd st)"
  using assms
proof (induction g arbitrary: ds b as)
  case Nil
  then show ?case by (simp add: graph_descs_def)
next
  case (Cons ji g)
  from Cons.prems(2) obtain cp where cp: "i_capabilities (snd ji) = Some cp" by auto
  note h = set_graph_job_inv[OF Cons.prems(1) cp]
  have e: "(ds @ job_descs (snd ji)) @ graph_descs g = ds @ graph_descs (ji # g)"
    by (simp add: graph_descs_def)
  have rest: "\<forall>ji \<in> set g. i_capabilities (snd ji) \<noteq> None" using Cons.prems(2) by simp
  show ?case
  proof (cases "set_graph_job ji (b, as)")
    case (Inl err)
    with h have "err = multiarch_error" "multiarch (ds @ job_descs (snd ji))" by auto
    then have "multiarch ((ds @ job_descs (snd ji)) @ graph_descs g)" using multiarch_mono by blast
    then show ?thesis using Inl \<open>err = multiarch_error\<close> unfolding e by simp
  next
    case (Inr st)
    obtain b1 as1 where st: "st = (b1, as1)" by (cases st) auto
    with h Inr have "sg_inv (ds @ job_descs (snd ji)) b1 as1" by simp
    from Cons.IH[OF this rest] show ?thesis using Inr st unfolding e by simp
  qed
qed

text \<open>
  The jobs that the loop ingests before it meets one without \<^verbatim>\<open>capabilities\<close>: all of
  them, if every job has the key.
\<close>

definition with_capabilities :: "(string \<times> 'f job_info) list \<Rightarrow> (string \<times> 'f job_info) list" where
  "with_capabilities g = takeWhile (\<lambda>ji. i_capabilities (snd ji) \<noteq> None) g"

lemma set_graph_jobs_append:
  "set_graph_jobs (g1 @ g2) st =
     (case set_graph_jobs g1 st of Inl e \<Rightarrow> Inl e | Inr st1 \<Rightarrow> set_graph_jobs g2 st1)"
proof (induction g1 arbitrary: st)
  case Nil
  then show ?case by simp
next
  case (Cons ji g1)
  then show ?case by (cases "set_graph_job ji st") simp_all
qed

lemma with_capabilities_all: "\<forall>ji \<in> set (with_capabilities g). i_capabilities (snd ji) \<noteq> None"
  unfolding with_capabilities_def by (auto dest: set_takeWhileD)

lemma with_capabilities_split:
  obtains (all) "with_capabilities g = g"
  | (stop) ji r where "g = with_capabilities g @ ji # r" "i_capabilities (snd ji) = None"
proof (cases "dropWhile (\<lambda>ji. i_capabilities (snd ji) \<noteq> None) g")
  case Nil
  then have "with_capabilities g = g"
    unfolding with_capabilities_def by (metis append_Nil2 takeWhile_dropWhile_id)
  then show ?thesis by (rule all)
next
  case (Cons ji r)
  then have n: "i_capabilities (snd ji) = None"
    using hd_dropWhile[of "\<lambda>ji. i_capabilities (snd ji) \<noteq> None" g] by simp
  have "g = with_capabilities g @ ji # r"
    unfolding with_capabilities_def using Cons
    by (metis takeWhile_dropWhile_id)
  then show ?thesis using n by (rule stop)
qed

lemma with_capabilities_stop:
  "g = with_capabilities g @ ji # r \<Longrightarrow> with_capabilities g \<noteq> g"
  by (metis append_self_conv list.distinct(1))

lemma set_graph_jobs_cases:
  assumes inv: "sg_inv ds b as"
  shows "case set_graph_jobs g (b, as) of
           Inl e \<Rightarrow> (e = multiarch_error \<and> multiarch (ds @ graph_descs (with_capabilities g)))
                   \<or> (e = caps_error \<and> \<not> multiarch (ds @ graph_descs (with_capabilities g))
                       \<and> with_capabilities g \<noteq> g)
         | Inr st \<Rightarrow> sg_inv (ds @ graph_descs g) (fst st) (snd st) \<and> with_capabilities g = g"
proof -
  note h = set_graph_jobs_inv[OF inv with_capabilities_all, of g]
  show ?thesis
  proof (cases rule: with_capabilities_split[of g])
    case all
    show ?thesis
    proof (cases "set_graph_jobs g (b, as)")
      case (Inl e)
      then show ?thesis using h all by simp
    next
      case (Inr st)
      then show ?thesis using h all by simp
    qed
  next
    case (stop ji r)
    note ne = with_capabilities_stop[OF stop(1)]
    have eq: "set_graph_jobs g (b, as) =
        (case set_graph_jobs (with_capabilities g) (b, as) of
           Inl e \<Rightarrow> Inl e | Inr st1 \<Rightarrow> set_graph_jobs (ji # r) st1)"
      using set_graph_jobs_append[of "with_capabilities g" "ji # r" "(b, as)"] stop(1) by simp
    show ?thesis
    proof (cases "set_graph_jobs (with_capabilities g) (b, as)")
      case (Inl e)
      then show ?thesis using h eq by simp
    next
      case (Inr st1)
      then have "sg_inv (ds @ graph_descs (with_capabilities g)) (fst st1) (snd st1)"
        using h by simp
      then have nm: "\<not> multiarch (ds @ graph_descs (with_capabilities g))"
        by (rule sg_inv_not_multiarch)
      have "set_graph_jobs g (b, as) = Inl caps_error"
        using eq Inr set_graph_job_nocaps[OF stop(2)] by simp
      then show ?thesis using nm ne by simp
    qed
  qed
qed

lemma sg_inv_fresh: "fresh b \<Longrightarrow> sg_inv [] (b\<lparr>revision := r, commits_object := co\<rparr>) []"
  by (auto simp: sg_inv_def fresh_def first_desc_Nil concrete_archs_Nil get_aset_def
      split: Kind.splits)

lemma rewrite_noarch_sets [simp]:
  "tool_set (rewrite_noarch as ads b) = tool_set b"
  "pkg_set (rewrite_noarch as ads b) = pkg_set b"
  "length (arts (rewrite_noarch as ads b)) = length (arts b)"
  by (induction ads arbitrary: b) simp_all

lemma rewrite_noarch_nth:
  "a < length (arts b) \<Longrightarrow>
   arts (rewrite_noarch as ads b) ! a =
     (if a \<in> set ads \<and> architecture (arts b ! a) = ArchStr ''noarch''
      then (arts b ! a)\<lparr>architecture := ArchList as\<rparr> else arts b ! a)"
proof (induction ads arbitrary: b)
  case Nil
  then show ?case by simp
next
  case (Cons x ads)
  then show ?case
    by (cases "x < length (arts b)") (auto simp: nth_list_update)
qed

lemma graph_descs_kind: "(k, d) \<in> set (graph_descs g) \<Longrightarrow> k \<noteq> FILE"
  by (auto simp: graph_descs_def job_descs_def)

lemma first_desc_SomeD: "first_desc ds k n = Some d \<Longrightarrow> (k, d) \<in> set ds \<and> d_name d = n"
  unfolding first_desc_def by (auto dest!: map_of_SomeD)

lemma first_desc_graph_kind: "first_desc (graph_descs g) k n = Some d \<Longrightarrow> k \<noteq> FILE"
  using first_desc_SomeD graph_descs_kind by blast

text \<open>
  The loops of \<open>set_graph\<close> on the validator's result, and \<open>set_graph\<close> in terms of
  them.
\<close>

definition ingest ::
  "build \<Rightarrow> string \<Rightarrow> graph \<Rightarrow> (string \<times> (string \<times> string) list) list \<Rightarrow> error + build" where
  "ingest b rv g co =
     (case set_graph_jobs g (b\<lparr>revision := Some rv, commits_object := co\<rparr>, []) of
        Inl e \<Rightarrow> Inl e
      | Inr (b1, arch_set) \<Rightarrow>
          Inr (store_status None
                 (rewrite_noarch arch_set
                    (dict_values (tool_set b1) @ dict_values (pkg_set b1)) b1)))"

lemma set_graph_ingest:
  "set_graph lts b rv raw co =
     (case GRAPH_VALIDATOR lts raw of Inl e \<Rightarrow> Inl e | Inr g \<Rightarrow> ingest b rv g co)"
  by (cases "GRAPH_VALIDATOR lts raw") (simp_all add: set_graph_def ingest_def)


lemma job_validator_descs:
  assumes "job_validator lts i = Some i'"
  shows "job_descs i' = job_descs i \<and> (i_capabilities i' = None \<longleftrightarrow> i_capabilities i = None)"
proof (cases "i_capabilities i")
  case None
  then show ?thesis using assms by (auto simp: job_validator_def job_descs_def)
next
  case (Some c)
  show ?thesis
  proof (cases "lts c")
    case None
    then show ?thesis using assms Some by (simp add: job_validator_def)
  next
    case Some2: (Some c')
    then show ?thesis using assms Some by (auto simp: job_validator_def job_descs_def)
  qed
qed

lemma GRAPH_VALIDATOR_descs:
  "GRAPH_VALIDATOR lts raw = Inr g \<Longrightarrow>
     graph_descs g = graph_descs raw
     \<and> graph_descs (with_capabilities g) = graph_descs (with_capabilities raw)
     \<and> (with_capabilities g = g \<longleftrightarrow> with_capabilities raw = raw)"
proof (induction raw arbitrary: g)
  case Nil
  then show ?case by (auto simp: with_capabilities_def graph_descs_def)
next
  case (Cons ji raw)
  from Cons.prems obtain i g' where i: "job_validator lts (snd ji) = Some i"
    and g': "GRAPH_VALIDATOR lts raw = Inr g'" and g: "g = (fst ji, i) # g'"
    by (cases "job_validator lts (snd ji)"; cases "JOB_REGEX (fst ji)";
        cases "GRAPH_VALIDATOR lts raw") auto
  note d = job_validator_descs[OF i]
  note ih = Cons.IH[OF g']
  show ?case
    unfolding g using d ih
    by (auto simp: graph_descs_def with_capabilities_def)
qed

lemma set_graph_Inr:
  assumes "ingest b rv g co = Inr b'"
  obtains b1 as where
    "set_graph_jobs g (b\<lparr>revision := Some rv, commits_object := co\<rparr>, []) = Inr (b1, as)"
    and "tool_set b' = tool_set b1" and "pkg_set b' = pkg_set b1"
    and "arts b' = arts (rewrite_noarch as (dict_values (tool_set b1) @ dict_values (pkg_set b1)) b1)"
proof (cases "set_graph_jobs g (b\<lparr>revision := Some rv, commits_object := co\<rparr>, [])")
  case (Inl e)
  then show ?thesis using assms by (simp add: ingest_def)
next
  case (Inr st)
  obtain b1 as where st: "st = (b1, as)" by (cases st) auto
  have "b' = store_status None
                 (rewrite_noarch as (dict_values (tool_set b1) @ dict_values (pkg_set b1)) b1)"
    using assms Inr st by (simp add: ingest_def)
  then have "tool_set b' = tool_set b1" "pkg_set b' = pkg_set b1"
    "arts b' = arts (rewrite_noarch as (dict_values (tool_set b1) @ dict_values (pkg_set b1)) b1)"
    by (simp_all add: store_status_def)
  then show ?thesis using that Inr st by blast
qed


lemma set_graph_fresh_cases:
  assumes "fresh b"
  shows "case set_graph_jobs g (b\<lparr>revision := Some rv, commits_object := co\<rparr>, []) of
           Inl e \<Rightarrow> (e = multiarch_error \<and> multiarch (graph_descs (with_capabilities g)))
                   \<or> (e = caps_error \<and> \<not> multiarch (graph_descs (with_capabilities g))
                       \<and> with_capabilities g \<noteq> g)
         | Inr st \<Rightarrow> sg_inv (graph_descs g) (fst st) (snd st) \<and> with_capabilities g = g"
  using set_graph_jobs_cases[OF sg_inv_fresh[OF assms, where r = "Some rv" and co = co], where g = g]
  unfolding append_Nil .

lemma sg_inv_unregistered:
  "sg_inv ds b as \<Longrightarrow> k \<noteq> FILE \<Longrightarrow> first_desc ds k n = None \<Longrightarrow> map_of (get_aset k b) n = None"
  unfolding sg_inv_def by blast

lemma sg_inv_registered:
  assumes "sg_inv ds b as" and "k \<noteq> FILE" and "first_desc ds k n = Some d"
  shows "\<exists>a. map_of (get_aset k b) n = Some a \<and> a < length (arts b)
              \<and> kind (arts b ! a) = k \<and> name (arts b ! a) = n
              \<and> architecture (arts b ! a) = ArchStr (d_architecture d)"
  using assms unfolding sg_inv_def by blast

lemma sg_inv_addr:
  "sg_inv ds b as \<Longrightarrow> a < length (arts b) \<Longrightarrow> kind (arts b ! a) \<noteq> FILE \<Longrightarrow>
   map_of (get_aset (kind (arts b ! a)) b) (name (arts b ! a)) = Some a"
  unfolding sg_inv_def by blast

lemma sg_inv_registered_addr:
  assumes inv: "sg_inv ds b as" and a: "a < length (arts b)" and k: "kind (arts b ! a) \<noteq> FILE"
  shows "a \<in> set (dict_values (tool_set b) @ dict_values (pkg_set b))"
    and "\<exists>d. first_desc ds (kind (arts b ! a)) (name (arts b ! a)) = Some d
            \<and> architecture (arts b ! a) = ArchStr (d_architecture d)"
proof -
  let ?k = "kind (arts b ! a)"
  let ?n = "name (arts b ! a)"
  have m: "map_of (get_aset ?k b) ?n = Some a"
    by (rule sg_inv_addr[OF inv a k])
  then have "(?n, a) \<in> set (get_aset ?k b)"
    by (rule map_of_SomeD)
  then have "a \<in> snd ` set (get_aset ?k b)" by force
  then show "a \<in> set (dict_values (tool_set b) @ dict_values (pkg_set b))"
    using k by (cases ?k) (simp_all add: get_aset_def dict_values_def)
  have "first_desc ds ?k ?n \<noteq> None"
    using sg_inv_unregistered[OF inv k, of ?n] m by auto
  then obtain d where d: "first_desc ds ?k ?n = Some d" by blast
  from sg_inv_registered[OF inv k d] m
  have "architecture (arts b ! a) = ArchStr (d_architecture d)" by auto
  with d show "\<exists>d. first_desc ds ?k ?n = Some d
            \<and> architecture (arts b ! a) = ArchStr (d_architecture d)" by blast
qed

lemma sg_inv_singleton:
  assumes "sg_inv ds b as" and "s \<in> concrete_archs ds"
  shows "as = [ArchStr s]" and "concrete_archs ds = {s}"
proof -
  from assms have "\<And>t. t \<in> concrete_archs ds \<Longrightarrow> t = s" unfolding sg_inv_def by blast
  with assms(2) show c: "concrete_archs ds = {s}" by blast
  from assms have "set as = ArchStr ` concrete_archs ds" "distinct as" unfolding sg_inv_def by blast+
  then have "set as = {ArchStr s}" "distinct as" unfolding c by simp_all
  show "as = [ArchStr s]"
  proof (cases as)
    case Nil
    then show ?thesis using \<open>set as = {ArchStr s}\<close> by simp
  next
    case (Cons x xs)
    then have x: "x = ArchStr s" using \<open>set as = {ArchStr s}\<close> by auto
    have "xs = []"
    proof (cases xs)
      case Nil
      then show ?thesis .
    next
      case (Cons y ys)
      then have "y \<in> set as" using \<open>as = x # xs\<close> by simp
      then have "y = x" using \<open>set as = {ArchStr s}\<close> x by simp
      then show ?thesis using \<open>distinct as\<close> \<open>as = x # xs\<close> Cons by simp
    qed
    then show ?thesis using Cons x by simp
  qed
qed

text \<open>
  How the result \<open>b'\<close> of \<open>set_graph\<close> relates to the build \<open>b1\<close> and the set \<open>as\<close>
  that the loop over the jobs leaves.
\<close>

definition rewritten :: "graph \<Rightarrow> build \<Rightarrow> arch list \<Rightarrow> build \<Rightarrow> bool" where
  "rewritten g b1 as b' \<longleftrightarrow>
     sg_inv (graph_descs g) b1 as
   \<and> tool_set b' = tool_set b1 \<and> pkg_set b' = pkg_set b1
   \<and> length (arts b') = length (arts b1)
   \<and> (\<forall>a < length (arts b1).
         kind (arts b' ! a) = kind (arts b1 ! a) \<and> name (arts b' ! a) = name (arts b1 ! a)
       \<and> (kind (arts b1 ! a) \<noteq> FILE \<longrightarrow>
           (\<exists>d. first_desc (graph_descs g) (kind (arts b1 ! a)) (name (arts b1 ! a)) = Some d
              \<and> architecture (arts b' ! a) =
                  (if d_architecture d = ''noarch'' then ArchList as
                   else ArchStr (d_architecture d)))))"

lemma rewritten_inv: "rewritten g b1 as b' \<Longrightarrow> sg_inv (graph_descs g) b1 as"
  unfolding rewritten_def by blast

lemma rewritten_sets:
  "rewritten g b1 as b' \<Longrightarrow> k \<noteq> FILE \<Longrightarrow> get_aset k b' = get_aset k b1"
  unfolding rewritten_def by (cases k) (simp_all add: get_aset_def)

lemma rewritten_length: "rewritten g b1 as b' \<Longrightarrow> length (arts b') = length (arts b1)"
  unfolding rewritten_def by blast

lemma rewritten_kind:
  "rewritten g b1 as b' \<Longrightarrow> a < length (arts b1) \<Longrightarrow>
   kind (arts b' ! a) = kind (arts b1 ! a) \<and> name (arts b' ! a) = name (arts b1 ! a)"
  unfolding rewritten_def by blast

lemma rewritten_arch:
  "rewritten g b1 as b' \<Longrightarrow> a < length (arts b1) \<Longrightarrow> kind (arts b1 ! a) \<noteq> FILE \<Longrightarrow>
   \<exists>d. first_desc (graph_descs g) (kind (arts b1 ! a)) (name (arts b1 ! a)) = Some d
     \<and> architecture (arts b' ! a) =
         (if d_architecture d = ''noarch'' then ArchList as else ArchStr (d_architecture d))"
  unfolding rewritten_def by blast

lemma set_graph_result:
  assumes f: "fresh b" and r: "ingest b rv g co = Inr b'"
  shows "\<exists>b1 as. rewritten g b1 as b'"
proof -
  from r obtain b1 as where
    j: "set_graph_jobs g (b\<lparr>revision := Some rv, commits_object := co\<rparr>, []) = Inr (b1, as)"
    and t: "tool_set b' = tool_set b1" and p: "pkg_set b' = pkg_set b1"
    and a: "arts b' = arts (rewrite_noarch as (dict_values (tool_set b1) @ dict_values (pkg_set b1)) b1)"
    by (rule set_graph_Inr)
  from set_graph_fresh_cases[OF f, where g = g and rv = rv and co = co] j
  have inv: "sg_inv (graph_descs g) b1 as"
    by simp
  have l: "length (arts b') = length (arts b1)" using a by simp
  have kn: "kind (arts b' ! x) = kind (arts b1 ! x) \<and> name (arts b' ! x) = name (arts b1 ! x)"
    if "x < length (arts b1)" for x
    using that unfolding a by (simp add: rewrite_noarch_nth)
  have ar: "\<exists>d. first_desc (graph_descs g) (kind (arts b1 ! x)) (name (arts b1 ! x)) = Some d
             \<and> architecture (arts b' ! x) =
                 (if d_architecture d = ''noarch'' then ArchList as
                  else ArchStr (d_architecture d))"
    if "x < length (arts b1)" "kind (arts b1 ! x) \<noteq> FILE" for x
  proof -
    from sg_inv_registered_addr[OF inv that]
    obtain d where m: "x \<in> set (dict_values (tool_set b1) @ dict_values (pkg_set b1))"
      and d: "first_desc (graph_descs g) (kind (arts b1 ! x)) (name (arts b1 ! x)) = Some d"
      and ad: "architecture (arts b1 ! x) = ArchStr (d_architecture d)"
      by blast
    have "architecture (arts b' ! x) =
                 (if d_architecture d = ''noarch'' then ArchList as
                  else ArchStr (d_architecture d))"
      unfolding a using that(1) m ad by (simp add: rewrite_noarch_nth)
    with d show ?thesis by blast
  qed
  have "rewritten g b1 as b'"
    unfolding rewritten_def using inv t p l kn ar by simp
  then show ?thesis by blast
qed


lemma set_graph_ok:
  assumes "fresh b" and "ingest b rv g co = Inr b'"
  shows "\<not> multiarch (graph_descs g)" and "with_capabilities g = g"
proof -
  from set_graph_result[OF assms] obtain b1 as where "rewritten g b1 as b'"
    by blast
  then show "\<not> multiarch (graph_descs g)" using rewritten_inv sg_inv_not_multiarch by blast
  from assms(2) obtain b1 as where
    j: "set_graph_jobs g (b\<lparr>revision := Some rv, commits_object := co\<rparr>, []) = Inr (b1, as)"
    by (rule set_graph_Inr)
  from set_graph_fresh_cases[OF assms(1), where g = g and rv = rv and co = co] j
  show "with_capabilities g = g" by simp
qed





lemma set_graph_returns:
  assumes f: "fresh b" and r: "set_graph lts b rv raw co = Inr b'"
  obtains g where "GRAPH_VALIDATOR lts raw = Inr g" and "ingest b rv g co = Inr b'"
    and "graph_descs g = graph_descs raw" and "with_capabilities raw = raw"
    and "\<not> multiarch (graph_descs raw)"
proof (cases "GRAPH_VALIDATOR lts raw")
  case (Inl e)
  then show ?thesis using r by (simp add: set_graph_ingest)
next
  case (Inr g)
  then have i: "ingest b rv g co = Inr b'" using r by (simp add: set_graph_ingest)
  note d = GRAPH_VALIDATOR_descs[OF Inr]
  from set_graph_ok[OF f i] d have "with_capabilities raw = raw" "\<not> multiarch (graph_descs raw)"
    by simp_all
  with Inr i d show ?thesis using that by blast
qed





lemma ex_fresh_fresh: "fresh ex_fresh"
  by (simp add: fresh_def ex_fresh_def ex_build_def)




lemma sg_inv_empty:
  assumes "sg_inv ds b as" and "concrete_archs ds = {}"
  shows "as = []"
proof -
  from assms have "set as = {}" unfolding sg_inv_def by simp
  then show ?thesis by simp
qed

text \<open>
  C7. \<^verbatim>\<open>set_graph\<close> returns \<open>b'\<close>. The architecture that counts for a tool or package
  is that of the descriptor that created it, the first one of its kind and name; the
  graph's concrete architectures are those among them that are not \<^verbatim>\<open>"noarch"\<close>.
  \<^item> If the graph has a concrete architecture \<open>s\<close>, then every tool and package that the
    graph names is registered in \<open>b'\<close> under its name, and its architecture is the
    one-element list \<^verbatim>\<open>[s]\<close> if the descriptor that created it said \<^verbatim>\<open>"noarch"\<close>, and
    \<open>s\<close> otherwise; no tool or package artifact of \<open>b'\<close> has any other architecture.
  \<^item> If the graph has none, every tool and package is registered with the empty list as
    its architecture, also when a later descriptor named one of them with another
    architecture.
\<close>

theorem set_graph_rewrites_noarch:
  assumes f: "fresh b" and r: "set_graph lts b rv raw co = Inr b'"
  shows "(\<forall>s. s \<in> concrete_archs (graph_descs raw) \<longrightarrow>
            (\<forall>k n d. first_desc (graph_descs raw) k n = Some d \<longrightarrow>
               (\<exists>a. map_of (get_aset k b') n = Some a \<and> a < length (arts b')
                   \<and> kind (arts b' ! a) = k \<and> name (arts b' ! a) = n
                   \<and> architecture (arts b' ! a) =
                       (if d_architecture d = ''noarch'' then ArchList [ArchStr s] else ArchStr s)))
          \<and> (\<forall>x \<in> set (arts b'). kind x \<noteq> FILE \<longrightarrow>
               architecture x = ArchList [ArchStr s] \<or> architecture x = ArchStr s))
       \<and> (concrete_archs (graph_descs raw) = {} \<longrightarrow>
            (\<forall>k n d. first_desc (graph_descs raw) k n = Some d \<longrightarrow>
               (\<exists>a. map_of (get_aset k b') n = Some a \<and> a < length (arts b')
                   \<and> kind (arts b' ! a) = k \<and> name (arts b' ! a) = n
                   \<and> architecture (arts b' ! a) = ArchList []))
          \<and> (\<forall>x \<in> set (arts b'). kind x \<noteq> FILE \<longrightarrow> architecture x = ArchList []))"
proof -
  from set_graph_returns[OF f r] obtain g where
    i: "ingest b rv g co = Inr b'" and dg: "graph_descs g = graph_descs raw"
    by blast
  from set_graph_result[OF f i] obtain b1 as where rw0: "rewritten g b1 as b'"
    by blast
  note inv = rewritten_inv[OF rw0, unfolded dg]
  have byname: "\<exists>a. map_of (get_aset k b') n = Some a \<and> a < length (arts b')
                \<and> kind (arts b' ! a) = k \<and> name (arts b' ! a) = n
                \<and> architecture (arts b' ! a) =
                    (if d_architecture d = ''noarch'' then ArchList as
                     else ArchStr (d_architecture d))"
    if d: "first_desc (graph_descs raw) k n = Some d" for k n d
  proof -
    have k: "k \<noteq> FILE" using d by (rule first_desc_graph_kind)
    from sg_inv_registered[OF inv k d] obtain a where
      a: "map_of (get_aset k b1) n = Some a" "a < length (arts b1)"
         "kind (arts b1 ! a) = k" "name (arts b1 ! a) = n"
      by blast
    have k1: "kind (arts b1 ! a) \<noteq> FILE" using a(3) k by simp
    from rewritten_arch[OF rw0 a(2) k1] obtain d' where
      d': "first_desc (graph_descs raw) (kind (arts b1 ! a)) (name (arts b1 ! a)) = Some d'"
      and e: "architecture (arts b' ! a) =
                 (if d_architecture d' = ''noarch'' then ArchList as
                  else ArchStr (d_architecture d'))"
      unfolding dg by blast
    have dd: "d' = d" using d d' a(3,4) by simp
    have m: "map_of (get_aset k b') n = Some a"
      using a(1) rewritten_sets[OF rw0 k] by simp
    have l: "a < length (arts b')" using a(2) rewritten_length[OF rw0] by simp
    show ?thesis using m l rewritten_kind[OF rw0 a(2)] a(3,4) e unfolding dd by blast
  qed
  have byaddr: "\<exists>d. (\<exists>k n. first_desc (graph_descs raw) k n = Some d)
                   \<and> architecture x = (if d_architecture d = ''noarch'' then ArchList as
                                        else ArchStr (d_architecture d))"
    if "x \<in> set (arts b')" "kind x \<noteq> FILE" for x
  proof -
    from that(1) obtain a where a: "a < length (arts b')" "x = arts b' ! a"
      by (auto simp: in_set_conv_nth)
    have a1: "a < length (arts b1)" using a(1) rewritten_length[OF rw0] by simp
    have a2: "kind (arts b1 ! a) \<noteq> FILE" using rewritten_kind[OF rw0 a1] that(2) a(2) by simp
    from rewritten_arch[OF rw0 a1 a2] obtain d where
      d: "first_desc (graph_descs raw) (kind (arts b1 ! a)) (name (arts b1 ! a)) = Some d"
      and e: "architecture (arts b' ! a) =
                 (if d_architecture d = ''noarch'' then ArchList as
                  else ArchStr (d_architecture d))"
      unfolding dg by blast
    show ?thesis using d e a(2) by blast
  qed
  have conc: "d_architecture d \<in> concrete_archs (graph_descs raw)"
    if "first_desc (graph_descs raw) k n = Some d" "d_architecture d \<noteq> ''noarch''" for k n d
    using that unfolding concrete_archs_iff by blast
  have one: "(\<forall>k n d. first_desc (graph_descs raw) k n = Some d \<longrightarrow>
               (\<exists>a. map_of (get_aset k b') n = Some a \<and> a < length (arts b')
                   \<and> kind (arts b' ! a) = k \<and> name (arts b' ! a) = n
                   \<and> architecture (arts b' ! a) =
                       (if d_architecture d = ''noarch'' then ArchList [ArchStr s] else ArchStr s)))
          \<and> (\<forall>x \<in> set (arts b'). kind x \<noteq> FILE \<longrightarrow>
               architecture x = ArchList [ArchStr s] \<or> architecture x = ArchStr s)"
    if s: "s \<in> concrete_archs (graph_descs raw)" for s
  proof -
    note single = sg_inv_singleton[OF inv s]
    have c: "d_architecture d = s"
      if "first_desc (graph_descs raw) k n = Some d" "d_architecture d \<noteq> ''noarch''" for k n d
      using conc[OF that] unfolding single(2) by simp
    have n1: "\<exists>a. map_of (get_aset k b') n = Some a \<and> a < length (arts b')
                   \<and> kind (arts b' ! a) = k \<and> name (arts b' ! a) = n
                   \<and> architecture (arts b' ! a) =
                       (if d_architecture d = ''noarch'' then ArchList [ArchStr s] else ArchStr s)"
      if d: "first_desc (graph_descs raw) k n = Some d" for k n d
      using byname[OF d] c[OF d] unfolding single(1) by (cases "d_architecture d = ''noarch''") auto
    have n2: "architecture x = ArchList [ArchStr s] \<or> architecture x = ArchStr s"
      if "x \<in> set (arts b')" "kind x \<noteq> FILE" for x
    proof -
      from byaddr[OF that] obtain d k n where d: "first_desc (graph_descs raw) k n = Some d"
        and e: "architecture x = (if d_architecture d = ''noarch'' then ArchList as
                                        else ArchStr (d_architecture d))"
        by blast
      show ?thesis using e c[OF d] unfolding single(1) by (cases "d_architecture d = ''noarch''") auto
    qed
    show ?thesis using n1 n2 by blast
  qed
  have none: "(\<forall>k n d. first_desc (graph_descs raw) k n = Some d \<longrightarrow>
               (\<exists>a. map_of (get_aset k b') n = Some a \<and> a < length (arts b')
                   \<and> kind (arts b' ! a) = k \<and> name (arts b' ! a) = n
                   \<and> architecture (arts b' ! a) = ArchList []))
          \<and> (\<forall>x \<in> set (arts b'). kind x \<noteq> FILE \<longrightarrow> architecture x = ArchList [])"
    if e: "concrete_archs (graph_descs raw) = {}"
  proof -
    note as = sg_inv_empty[OF inv e]
    have c: "d_architecture d = ''noarch''"
      if "first_desc (graph_descs raw) k n = Some d" for k n d
      using conc[OF that] e by auto
    have n1: "\<exists>a. map_of (get_aset k b') n = Some a \<and> a < length (arts b')
                   \<and> kind (arts b' ! a) = k \<and> name (arts b' ! a) = n
                   \<and> architecture (arts b' ! a) = ArchList []"
      if d: "first_desc (graph_descs raw) k n = Some d" for k n d
      using byname[OF d] c[OF d] unfolding as by auto
    have n2: "architecture x = ArchList []"
      if "x \<in> set (arts b')" "kind x \<noteq> FILE" for x
    proof -
      from byaddr[OF that] obtain d k n where d: "first_desc (graph_descs raw) k n = Some d"
        and e: "architecture x = (if d_architecture d = ''noarch'' then ArchList as
                                        else ArchStr (d_architecture d))"
        by blast
      show ?thesis using e c[OF d] unfolding as by simp
    qed
    show ?thesis using n1 n2 by blast
  qed
  show ?thesis using one none by blast
qed

lemma ex_graph_returns:
  "set_graph ex_list_to_set ex_fresh ''abc'' ex_graph []
     = Inr (projr (set_graph ex_list_to_set ex_fresh ''abc'' ex_graph []))"
proof -
  have "\<not> isl (set_graph ex_list_to_set ex_fresh ''abc'' ex_graph [])" by code_simp
  then show ?thesis by (cases "set_graph ex_list_to_set ex_fresh ''abc'' ex_graph []") auto
qed

lemma ex_graph_concrete: "''x86_64'' \<in> concrete_archs (graph_descs ex_graph)"
proof -
  have "first_desc (graph_descs ex_graph) PACKAGE ''p'' = Some (ex_desc ''p'' ''1.0'' ''x86_64'')"
    by code_simp
  moreover have "d_architecture (ex_desc ''p'' ''1.0'' ''x86_64'') = ''x86_64''"
    by (simp add: ex_desc_def)
  ultimately show ?thesis
    unfolding concrete_archs_iff by force
qed

theorem set_graph_rewrites_noarch_witness:
  "\<exists>b' a. set_graph ex_list_to_set ex_fresh ''abc'' ex_graph [] = Inr b'
      \<and> map_of (pkg_set b') ''q'' = Some a
      \<and> architecture (arts b' ! a) = ArchList [ArchStr ''x86_64'']"
proof -
  have q: "first_desc (graph_descs ex_graph) PACKAGE ''q'' = Some (ex_desc ''q'' ''2'' ''noarch'')"
    by code_simp
  have n: "d_architecture (ex_desc ''q'' ''2'' ''noarch'') = ''noarch''"
    by (simp add: ex_desc_def)
  from conjunct1[OF set_graph_rewrites_noarch [OF ex_fresh_fresh ex_graph_returns]] ex_graph_concrete q n
  obtain a where "map_of (get_aset PACKAGE (projr (set_graph ex_list_to_set ex_fresh ''abc'' ex_graph []))) ''q'' = Some a"
    "architecture (arts (projr (set_graph ex_list_to_set ex_fresh ''abc'' ex_graph [])) ! a) = ArchList [ArchStr ''x86_64'']"
    by fastforce
  then show ?thesis using ex_graph_returns by (auto simp: get_aset_def)
qed

text \<open>
  C7, as the claim has it, fails: the graph \<open>ex_graph_late\<close> contains the package
  descriptor \<open>q\<close> for \<open>x86_64\<close>, which is not \<^verbatim>\<open>"noarch"\<close>; \<^verbatim>\<open>set_graph\<close> returns, and
  the three artifacts, all \<^verbatim>\<open>"noarch"\<close> before, have the empty list as their
  architecture, not a concrete one.
\<close>

theorem set_graph_rewrites_noarch_counterexample:
  "(PACKAGE, ex_desc ''q'' ''2'' ''x86_64'') \<in> set (graph_descs ex_graph_late)
   \<and> map_sum id (\<lambda>b'. map (\<lambda>x. (kind x, name x, architecture x)) (arts b'))
        (set_graph ex_list_to_set ex_fresh ''abc'' ex_graph_late [])
      = Inr [(PACKAGE, ''q'', ArchList []), (PACKAGE, ''r'', ArchList []), (TOOL, ''t'', ArchList [])]"
proof -
  have 1: "(PACKAGE, ex_desc ''q'' ''2'' ''x86_64'') \<in> set (graph_descs ex_graph_late)"
    by (simp add: graph_descs_def job_descs_def ex_graph_late_def)
  have 2: "map_sum id (\<lambda>b'. map (\<lambda>x. (kind x, name x, architecture x)) (arts b'))
        (set_graph ex_list_to_set ex_fresh ''abc'' ex_graph_late [])
      = Inr [(PACKAGE, ''q'', ArchList []), (PACKAGE, ''r'', ArchList []), (TOOL, ''t'', ArchList [])]"
    by code_simp
  show ?thesis using 1 2 by (intro conjI)
qed

subsection \<open>Failure cascade\<close>

definition job_at :: "build \<Rightarrow> nat \<Rightarrow> job" where
  "job_at b k = snd (jobs b ! k)"

text \<open>Every reference of a job is an address of the store.\<close>

definition wf_build :: "build \<Rightarrow> bool" where
  "wf_build b \<longleftrightarrow>
     (\<forall>k < length (jobs b). \<forall>a \<in> set (deps (job_at b k) @ products (job_at b k)). a < length (arts b))"

text \<open>
  The status that \<^verbatim>\<open>Job.fail\<close> leaves in a job of stability \<open>u\<close> whose status was \<open>s0\<close>
  before the cascade.
\<close>

definition failed_status :: "bool \<Rightarrow> JobStatus \<Rightarrow> JobStatus \<Rightarrow> bool" where
  "failed_status u s0 s \<longleftrightarrow>
     s = (if u then IGNORED_FAILURE else FAILED) \<or> (s = WAITING_FOR_DONE \<and> s0 = RUNNING)"

definition frame :: "build \<Rightarrow> build \<Rightarrow> bool" where
  "frame b b' \<longleftrightarrow>
     length (jobs b') = length (jobs b) \<and> length (arts b') = length (arts b)
   \<and> (\<forall>k < length (jobs b).
         deps (job_at b' k) = deps (job_at b k) \<and> products (job_at b' k) = products (job_at b k)
       \<and> unstable (job_at b' k) = unstable (job_at b k)
       \<and> (status (job_at b' k) = status (job_at b k)
          \<or> failed_status (unstable (job_at b k)) (status (job_at b k)) (status (job_at b' k))))
   \<and> (\<forall>a < length (arts b).
         artifact_eq (arts b' ! a) (arts b ! a)
       \<and> (failed (arts b ! a) \<longrightarrow> failed (arts b' ! a))
       \<and> (received (arts b ! a) \<longrightarrow> received (arts b' ! a))
       \<and> (failed (arts b' ! a) \<and> \<not> failed (arts b ! a) \<longrightarrow> received (arts b' ! a)))"

definition touched :: "build \<Rightarrow> build \<Rightarrow> nat \<Rightarrow> bool" where
  "touched b b' k \<longleftrightarrow>
     failed_status (unstable (job_at b k)) (status (job_at b k)) (status (job_at b' k))
   \<and> (\<forall>p \<in> set (products (job_at b k)). failed (arts b' ! p))"

definition cascade_closed :: "build \<Rightarrow> build \<Rightarrow> bool" where
  "cascade_closed b b' \<longleftrightarrow>
     (\<forall>a < length (arts b). failed (arts b' ! a) \<and> \<not> failed (arts b ! a) \<longrightarrow>
        (\<forall>k < length (jobs b). consumes b k a \<longrightarrow> touched b b' k))"

lemma failed_status_trans:
  assumes "s1 = s0 \<or> failed_status u s0 s1" and "s2 = s1 \<or> failed_status u s1 s2"
  shows "s2 = s0 \<or> failed_status u s0 s2"
  using assms unfolding failed_status_def by (auto split: if_splits)

lemma failed_status_persist:
  assumes "failed_status u s0 s1" and "s2 = s1 \<or> failed_status u s1 s2"
  shows "failed_status u s0 s2"
  using assms unfolding failed_status_def by (auto split: if_splits)

lemma failed_status_lift:
  assumes "s1 = s0 \<or> failed_status u s0 s1" and "failed_status u s1 s2"
  shows "failed_status u s0 s2"
  using assms unfolding failed_status_def by (auto split: if_splits)

lemma artifact_eq_refl [simp]: "artifact_eq x x"
  by (simp add: artifact_eq_def)

lemma artifact_eq_trans: "artifact_eq x y \<Longrightarrow> artifact_eq y z \<Longrightarrow> artifact_eq x z"
  by (simp add: artifact_eq_def)

lemma artifact_eq_cong:
  "artifact_eq x x' \<Longrightarrow> artifact_eq y y' \<Longrightarrow> artifact_eq x y = artifact_eq x' y'"
  by (auto simp: artifact_eq_def)

lemma frame_refl: "frame b b"
  by (simp add: frame_def)

lemma frame_lengths: "frame b b' \<Longrightarrow> length (jobs b') = length (jobs b) \<and> length (arts b') = length (arts b)"
  by (simp add: frame_def)

lemma frame_job:
  "frame b b' \<Longrightarrow> k < length (jobs b) \<Longrightarrow>
   deps (job_at b' k) = deps (job_at b k) \<and> products (job_at b' k) = products (job_at b k)
   \<and> unstable (job_at b' k) = unstable (job_at b k)
   \<and> (status (job_at b' k) = status (job_at b k)
      \<or> failed_status (unstable (job_at b k)) (status (job_at b k)) (status (job_at b' k)))"
  unfolding frame_def by blast

lemma frame_art:
  "frame b b' \<Longrightarrow> a < length (arts b) \<Longrightarrow>
   artifact_eq (arts b' ! a) (arts b ! a)
   \<and> (failed (arts b ! a) \<longrightarrow> failed (arts b' ! a))
   \<and> (received (arts b ! a) \<longrightarrow> received (arts b' ! a))
   \<and> (failed (arts b' ! a) \<and> \<not> failed (arts b ! a) \<longrightarrow> received (arts b' ! a))"
  unfolding frame_def by blast

lemma frame_trans:
  assumes f1: "frame b b1" and f2: "frame b1 b2"
  shows "frame b b2"
proof -
  note l1 = frame_lengths[OF f1] and l2 = frame_lengths[OF f2]
  have j: "deps (job_at b2 k) = deps (job_at b k) \<and> products (job_at b2 k) = products (job_at b k)
       \<and> unstable (job_at b2 k) = unstable (job_at b k)
       \<and> (status (job_at b2 k) = status (job_at b k)
          \<or> failed_status (unstable (job_at b k)) (status (job_at b k)) (status (job_at b2 k)))"
    if "k < length (jobs b)" for k
  proof -
    note a = frame_job[OF f1 that]
    have "k < length (jobs b1)" using that l1 by simp
    note c = frame_job[OF f2 this]
    from a c have "status (job_at b2 k) = status (job_at b k)
          \<or> failed_status (unstable (job_at b k)) (status (job_at b k)) (status (job_at b2 k))"
      using failed_status_trans[of "status (job_at b1 k)" "status (job_at b k)"
          "unstable (job_at b k)" "status (job_at b2 k)"] by auto
    with a c show ?thesis by simp
  qed
  have ar: "artifact_eq (arts b2 ! a) (arts b ! a)
       \<and> (failed (arts b ! a) \<longrightarrow> failed (arts b2 ! a))
       \<and> (received (arts b ! a) \<longrightarrow> received (arts b2 ! a))
       \<and> (failed (arts b2 ! a) \<and> \<not> failed (arts b ! a) \<longrightarrow> received (arts b2 ! a))"
    if "a < length (arts b)" for a
  proof -
    note x = frame_art[OF f1 that]
    have "a < length (arts b1)" using that l1 by simp
    note y = frame_art[OF f2 this]
    from x y show ?thesis using artifact_eq_trans by blast
  qed
  show ?thesis
    unfolding frame_def using l1 l2 j ar by simp
qed

lemma wf_buildD:
  "wf_build b \<Longrightarrow> k < length (jobs b) \<Longrightarrow>
   (\<forall>a \<in> set (deps (job_at b k)). a < length (arts b))
   \<and> (\<forall>a \<in> set (products (job_at b k)). a < length (arts b))"
  unfolding wf_build_def by simp

lemma frame_wf:
  assumes f: "frame b b'" and w: "wf_build b"
  shows "wf_build b'"
proof -
  note l = frame_lengths[OF f]
  have "\<forall>a \<in> set (deps (job_at b' k) @ products (job_at b' k)). a < length (arts b')"
    if "k < length (jobs b')" for k
  proof -
    have k: "k < length (jobs b)" using that l by simp
    from frame_job[OF f k] wf_buildD[OF w k] l show ?thesis by auto
  qed
  then show ?thesis unfolding wf_build_def by blast
qed

lemma consumes_frame:
  assumes f: "frame b b'" and w: "wf_build b" and k: "k < length (jobs b)" and p: "p < length (arts b)"
  shows "consumes b' k p = consumes b k p"
proof -
  have d: "deps (job_at b' k) = deps (job_at b k)" using frame_job[OF f k] by simp
  have pe: "artifact_eq (arts b' ! p) (arts b ! p)" using frame_art[OF f p] by simp
  have e: "artifact_eq (arts b' ! x) (arts b' ! p) = artifact_eq (arts b ! x) (arts b ! p)"
    if "x \<in> set (deps (job_at b k))" for x
  proof -
    have "x < length (arts b)" using wf_buildD[OF w k] that by simp
    then have "artifact_eq (arts b' ! x) (arts b ! x)" using frame_art[OF f] by simp
    then show ?thesis using pe by (rule artifact_eq_cong)
  qed
  have "consumes b' k p = (\<exists>x \<in> set (deps (job_at b k)). x = p \<or> artifact_eq (arts b' ! x) (arts b' ! p))"
    unfolding consumes_def list_ex_iff using d by (simp add: job_at_def)
  also have "\<dots> = (\<exists>x \<in> set (deps (job_at b k)). x = p \<or> artifact_eq (arts b ! x) (arts b ! p))"
    using e by blast
  also have "\<dots> = consumes b k p"
    unfolding consumes_def list_ex_iff by (simp add: job_at_def)
  finally show ?thesis .
qed

lemma touched_persist:
  assumes f1: "frame b b1" and f2: "frame b1 b2" and w: "wf_build b" and k: "k < length (jobs b)"
    and t: "touched b b1 k"
  shows "touched b b2 k"
proof -
  note l1 = frame_lengths[OF f1]
  have k1: "k < length (jobs b1)" using k l1 by simp
  note j1 = frame_job[OF f1 k] and j2 = frame_job[OF f2 k1]
  have s: "failed_status (unstable (job_at b k)) (status (job_at b k)) (status (job_at b2 k))"
    using t j1 j2 failed_status_persist[of "unstable (job_at b k)" "status (job_at b k)"
        "status (job_at b1 k)" "status (job_at b2 k)"]
    unfolding touched_def by auto
  have "failed (arts b2 ! p)" if "p \<in> set (products (job_at b k))" for p
  proof -
    have "p < length (arts b1)" using wf_buildD[OF w k] that l1 by simp
    moreover have "failed (arts b1 ! p)" using t that unfolding touched_def by blast
    ultimately show ?thesis using frame_art[OF f2] by blast
  qed
  with s show ?thesis unfolding touched_def by blast
qed

lemma touched_lift:
  assumes f1: "frame b b1" and k: "k < length (jobs b)" and t: "touched b1 b2 k"
  shows "touched b b2 k"
proof -
  note j1 = frame_job[OF f1 k]
  have s: "failed_status (unstable (job_at b k)) (status (job_at b k)) (status (job_at b2 k))"
    using t j1 failed_status_lift[of "status (job_at b1 k)" "status (job_at b k)"
        "unstable (job_at b k)" "status (job_at b2 k)"]
    unfolding touched_def by auto
  then show ?thesis using t j1 unfolding touched_def by simp
qed

lemma cascade_closedD:
  "cascade_closed b b' \<Longrightarrow> a < length (arts b) \<Longrightarrow> failed (arts b' ! a) \<Longrightarrow> \<not> failed (arts b ! a) \<Longrightarrow>
   k < length (jobs b) \<Longrightarrow> consumes b k a \<Longrightarrow> touched b b' k"
  unfolding cascade_closed_def by blast

lemma cascade_closed_trans:
  assumes w: "wf_build b" and f1: "frame b b1" and f2: "frame b1 b2"
    and c1: "cascade_closed b b1" and c2: "cascade_closed b1 b2"
  shows "cascade_closed b b2"
proof -
  note l1 = frame_lengths[OF f1]
  have "touched b b2 k"
    if a: "a < length (arts b)" and fa: "failed (arts b2 ! a)" "\<not> failed (arts b ! a)"
      and k: "k < length (jobs b)" and c: "consumes b k a" for a k
  proof (cases "failed (arts b1 ! a)")
    case True
    from cascade_closedD[OF c1 a True fa(2) k c] have "touched b b1 k" .
    then show ?thesis by (rule touched_persist[OF f1 f2 w k])
  next
    case False
    have a1: "a < length (arts b1)" and k1: "k < length (jobs b1)" using a k l1 by simp_all
    have "consumes b1 k a" using consumes_frame[OF f1 w k a] c by simp
    from cascade_closedD[OF c2 a1 fa(1) False k1 this] have "touched b1 b2 k" .
    then show ?thesis by (rule touched_lift[OF f1 k])
  qed
  then show ?thesis unfolding cascade_closed_def by blast
qed

lemma job_at_set_job:
  "i < length (jobs b) \<Longrightarrow> job_at (set_job b i j) k = (if k = i then j else job_at b k)"
  by (simp add: job_at_def set_job_def nth_list_update)

lemma set_job_simps [simp]:
  "arts (set_job b i j) = arts b" "length (jobs (set_job b i j)) = length (jobs b)"
  by (simp_all add: set_job_def)

lemma mark_failed_simps [simp]:
  "jobs (mark_failed b p) = jobs b" "length (arts (mark_failed b p)) = length (arts b)"
  "job_at (mark_failed b p) k = job_at b k"
  by (simp_all add: mark_failed_def job_at_def)

lemma arts_mark_failed:
  "p < length (arts b) \<Longrightarrow>
   arts (mark_failed b p) ! a =
     (if a = p then (arts b ! p)\<lparr>failed := True, received := True\<rparr> else arts b ! a)"
  by (simp add: mark_failed_def nth_list_update)

lemma frame_set_job:
  assumes "i < length (jobs b)"
  shows "frame b (set_job b i (fail_status (job_at b i)))"
  using assms
  by (auto simp: frame_def job_at_set_job fail_status_def failed_status_def)

lemma cascade_closed_same_arts: "arts b' = arts b \<Longrightarrow> cascade_closed b b'"
  by (simp add: cascade_closed_def)

lemma frame_mark_failed:
  assumes "p < length (arts b)"
  shows "frame b (mark_failed b p)"
  using assms
  by (auto simp: frame_def arts_mark_failed artifact_eq_def)

lemma cascade_closed_mark_failed:
  assumes w: "wf_build b" and p: "p < length (arts b)"
    and f2: "frame (mark_failed b p) b2" and c2: "cascade_closed (mark_failed b p) b2"
    and t: "\<forall>k < length (jobs b). consumes (mark_failed b p) k p \<longrightarrow> touched (mark_failed b p) b2 k"
  shows "cascade_closed b b2"
proof -
  let ?b1 = "mark_failed b p"
  note f1 = frame_mark_failed[OF p]
  have "touched b b2 k"
    if a: "a < length (arts b)" and fa: "failed (arts b2 ! a)" "\<not> failed (arts b ! a)"
      and k: "k < length (jobs b)" and c: "consumes b k a" for a k
  proof -
    have c1: "consumes ?b1 k a" using consumes_frame[OF f1 w k a] c by simp
    have "touched ?b1 b2 k"
    proof (cases "a = p")
      case True
      then show ?thesis using t k c1 by blast
    next
      case False
      then have "\<not> failed (arts ?b1 ! a)" using fa(2) p by (simp add: arts_mark_failed)
      moreover have "a < length (arts ?b1)" "k < length (jobs ?b1)" using a k by simp_all
      ultimately show ?thesis using cascade_closedD[OF c2 _ fa(1) _ _ c1] by blast
    qed
    then show ?thesis by (rule touched_lift[OF f1 k])
  qed
  then show ?thesis unfolding cascade_closed_def by blast
qed

lemma fail_cascade:
  "wf_build b \<longrightarrow>
     frame b (fail b i) \<and> cascade_closed b (fail b i)
     \<and> (i < length (jobs b) \<longrightarrow> touched b (fail b i) i)"
  "wf_build b \<longrightarrow> (\<forall>p \<in> set ps. p < length (arts b)) \<longrightarrow>
     frame b (fail_products b ps) \<and> cascade_closed b (fail_products b ps)
     \<and> (\<forall>p \<in> set ps. failed (arts (fail_products b ps) ! p))"
  "wf_build b \<longrightarrow> p < length (arts b) \<longrightarrow> (\<forall>k \<in> set ks. k < length (jobs b)) \<longrightarrow>
     frame b (fail_consumers b p ks) \<and> cascade_closed b (fail_consumers b p ks)
     \<and> (\<forall>k \<in> set ks. consumes b k p \<longrightarrow> touched b (fail_consumers b p ks) k)"
proof (induction b i and b ps and b p ks rule: fail_fail_products_fail_consumers.induct)
  case (1 b i)
  show ?case
  proof (cases "i < length (jobs b)")
    case False
    then show ?thesis by (simp add: fail.simps frame_refl cascade_closed_same_arts)
  next
    case True
    let ?b0 = "set_job b i (fail_status (job_at b i))"
    let ?ps = "products (job_at b i)"
    let ?b' = "fail_products ?b0 ?ps"
    have eq: "fail b i = ?b'" using True by (simp add: fail.simps job_at_def)
    show ?thesis
    proof (intro impI)
      assume w: "wf_build b"
      note f0 = frame_set_job[OF True]
      note w0 = frame_wf[OF f0 w]
      have c0: "cascade_closed b ?b0" by (rule cascade_closed_same_arts) simp
      have ps: "\<forall>p \<in> set ?ps. p < length (arts ?b0)"
        using wf_buildD[OF w True] by simp
      from "1.IH"[OF True] w0 ps
      have ih: "frame ?b0 ?b'" "cascade_closed ?b0 ?b'" "\<forall>p \<in> set ?ps. failed (arts ?b' ! p)"
        by (simp_all add: job_at_def)
      have f: "frame b ?b'" by (rule frame_trans[OF f0 ih(1)])
      have c: "cascade_closed b ?b'" by (rule cascade_closed_trans[OF w f0 ih(1) c0 ih(2)])
      have s0: "failed_status (unstable (job_at b i)) (status (job_at b i)) (status (job_at ?b0 i))"
        using True by (simp add: job_at_set_job fail_status_def failed_status_def)
      have "touched b ?b0 i \<or> True" by simp
      have i0: "i < length (jobs ?b0)" using True by simp
      have u0: "unstable (job_at ?b0 i) = unstable (job_at b i)"
        using frame_job[OF f0 True] by simp
      have "failed_status (unstable (job_at b i)) (status (job_at b i)) (status (job_at ?b' i))"
        using s0 frame_job[OF ih(1) i0] u0
          failed_status_persist[of "unstable (job_at b i)" "status (job_at b i)"
            "status (job_at ?b0 i)" "status (job_at ?b' i)"]
        by auto
      then have t: "touched b ?b' i" using ih(3) unfolding touched_def by simp
      show "frame b (fail b i) \<and> cascade_closed b (fail b i)
            \<and> (i < length (jobs b) \<longrightarrow> touched b (fail b i) i)"
        unfolding eq using f c t by simp
    qed
  qed
next
  case (2 b)
  show ?case by (simp add: frame_refl cascade_closed_same_arts)
next
  case (3 b p ps)
  show ?case
  proof (intro impI)
    assume w: "wf_build b" and r: "\<forall>x \<in> set (p # ps). x < length (arts b)"
    then have p: "p < length (arts b)" and rs: "\<forall>x \<in> set ps. x < length (arts b)" by simp_all
    show "frame b (fail_products b (p # ps)) \<and> cascade_closed b (fail_products b (p # ps))
          \<and> (\<forall>x \<in> set (p # ps). failed (arts (fail_products b (p # ps)) ! x))"
    proof (cases "failed (arts b ! p)")
      case True
      then have c: "\<not> (p < length (arts b) \<and> \<not> failed (arts b ! p))" by simp
      have eq: "fail_products b (p # ps) = fail_products b ps" using True by simp
      from "3.IH"(3)[OF c] w rs
      have ih: "frame b (fail_products b ps)" "cascade_closed b (fail_products b ps)"
        "\<forall>x \<in> set ps. failed (arts (fail_products b ps) ! x)" by simp_all
      have "failed (arts (fail_products b ps) ! p)"
        using frame_art[OF ih(1) p] True by simp
      then show ?thesis unfolding eq using ih by simp
    next
      case False
      then have c: "p < length (arts b) \<and> \<not> failed (arts b ! p)" using p by simp
      let ?b1 = "mark_failed b p"
      let ?b2 = "fail_consumers ?b1 p [0..<length (jobs b)]"
      let ?b3 = "fail_products ?b2 ps"
      have eq: "fail_products b (p # ps) = ?b3" using c by simp
      note f1 = frame_mark_failed[OF p]
      note w1 = frame_wf[OF f1 w]
      from "3.IH"(1)[OF c] w1 p
      have ih1: "frame ?b1 ?b2" "cascade_closed ?b1 ?b2"
        "\<forall>k \<in> set [0..<length (jobs b)]. consumes ?b1 k p \<longrightarrow> touched ?b1 ?b2 k"
        by simp_all
      have f2: "frame b ?b2" by (rule frame_trans[OF f1 ih1(1)])
      have c2: "cascade_closed b ?b2"
        by (rule cascade_closed_mark_failed[OF w p ih1(1) ih1(2)]) (use ih1(3) in simp)
      note w2 = frame_wf[OF f2 w]
      have rs2: "\<forall>x \<in> set ps. x < length (arts ?b2)"
        using rs frame_lengths[OF f2] by simp
      from "3.IH"(2)[OF c] w2 rs2
      have ih2: "frame ?b2 ?b3" "cascade_closed ?b2 ?b3" "\<forall>x \<in> set ps. failed (arts ?b3 ! x)"
        by simp_all
      have f3: "frame b ?b3" by (rule frame_trans[OF f2 ih2(1)])
      have c3: "cascade_closed b ?b3" by (rule cascade_closed_trans[OF w f2 ih2(1) c2 ih2(2)])
      have "failed (arts ?b1 ! p)" using p by (simp add: arts_mark_failed)
      moreover have "frame ?b1 ?b3" by (rule frame_trans[OF ih1(1) ih2(1)])
      ultimately have "failed (arts ?b3 ! p)"
        using frame_art[of ?b1 ?b3 p] p by simp
      then show ?thesis unfolding eq using f3 c3 ih2(3) by simp
    qed
  qed
next
  case (4 b p)
  show ?case by (simp add: frame_refl cascade_closed_same_arts)
next
  case (5 b p k ks)
  show ?case
  proof (intro impI)
    assume w: "wf_build b" and p: "p < length (arts b)"
      and r: "\<forall>x \<in> set (k # ks). x < length (jobs b)"
    then have k: "k < length (jobs b)" and rs: "\<forall>x \<in> set ks. x < length (jobs b)" by simp_all
    show "frame b (fail_consumers b p (k # ks)) \<and> cascade_closed b (fail_consumers b p (k # ks))
          \<and> (\<forall>x \<in> set (k # ks). consumes b x p \<longrightarrow> touched b (fail_consumers b p (k # ks)) x)"
    proof (cases "consumes b k p")
      case False
      have eq: "fail_consumers b p (k # ks) = fail_consumers b p ks" using False by simp
      from "5.IH"(3)[OF False] w p rs
      show ?thesis unfolding eq using False by simp
    next
      case True
      let ?b1 = "fail b k"
      let ?b2 = "fail_consumers ?b1 p ks"
      have eq: "fail_consumers b p (k # ks) = ?b2" using True by simp
      from "5.IH"(1)[OF True] w k
      have ih1: "frame b ?b1" "cascade_closed b ?b1" "touched b ?b1 k" by simp_all
      note w1 = frame_wf[OF ih1(1) w]
      note l1 = frame_lengths[OF ih1(1)]
      from "5.IH"(2)[OF True] w1 p rs l1
      have ih2: "frame ?b1 ?b2" "cascade_closed ?b1 ?b2"
        "\<forall>x \<in> set ks. consumes ?b1 x p \<longrightarrow> touched ?b1 ?b2 x" by simp_all
      have f: "frame b ?b2" by (rule frame_trans[OF ih1(1) ih2(1)])
      have c: "cascade_closed b ?b2" by (rule cascade_closed_trans[OF w ih1(1) ih2(1) ih1(2) ih2(2)])
      have tk: "touched b ?b2 k" by (rule touched_persist[OF ih1(1) ih2(1) w k ih1(3)])
      have tx: "touched b ?b2 x" if "x \<in> set ks" "consumes b x p" for x
      proof -
        have x: "x < length (jobs b)" using rs that(1) by simp
        have "consumes ?b1 x p" using consumes_frame[OF ih1(1) w x p] that(2) by simp
        then have "touched ?b1 ?b2 x" using ih2(3) that(1) by blast
        then show ?thesis by (rule touched_lift[OF ih1(1) x])
      qed
      show ?thesis unfolding eq using f c tk tx by auto
    qed
  qed
qed

inductive reach :: "build \<Rightarrow> nat \<Rightarrow> nat \<Rightarrow> bool" for b i where
  reach_self: "i < length (jobs b) \<Longrightarrow> reach b i i"
| reach_step: "reach b i j \<Longrightarrow> p \<in> set (products (job_at b j)) \<Longrightarrow> \<not> failed (arts b ! p) \<Longrightarrow>
               k < length (jobs b) \<Longrightarrow> consumes b k p \<Longrightarrow> reach b i k"

lemma reach_in_graph: "reach b i k \<Longrightarrow> k < length (jobs b)"
  by (induction rule: reach.induct) simp_all

lemma reach_touched:
  assumes w: "wf_build b" and r: "reach b i k"
  shows "touched b (fail b i) k"
  using r
proof (induction rule: reach.induct)
  case reach_self
  then show ?case using fail_cascade(1)[of b i] w by simp
next
  case (reach_step j p k)
  have j: "j < length (jobs b)" using reach_step.hyps(1) by (rule reach_in_graph)
  have p: "p < length (arts b)" using wf_buildD[OF w j] reach_step.hyps(2) by simp
  have "failed (arts (fail b i) ! p)"
    using reach_step.IH reach_step.hyps(2) unfolding touched_def by blast
  moreover have "cascade_closed b (fail b i)" using fail_cascade(1)[of b i] w by simp
  ultimately show ?case
    using cascade_closedD[OF _ p _ reach_step.hyps(3) reach_step.hyps(4) reach_step.hyps(5)] by blast
qed

text \<open>
  C3, as the code has it. In a build whose jobs refer to artifacts of its store and in
  which no artifact is failed without being received, \<^verbatim>\<open>Job.fail\<close> is invoked on job
  \<open>i\<close>. Let \<open>k\<close> be \<open>i\<close> or any job reached from it by going, any number of times,
  from a job to a consumer of one of its products that was not failed before the call.
  Then afterwards
  \<^item> the status of \<open>k\<close> is \<open>IGNORED_FAILURE\<close> if \<open>k\<close> is unstable and \<open>FAILED\<close> if it is
    not, or it is \<open>WAITING_FOR_DONE\<close> and \<open>k\<close> was \<open>RUNNING\<close> before the call: \<open>k\<close> is in
    a terminal state unless it was running;
  \<^item> every product of \<open>k\<close> is received and failed.
\<close>

theorem fail_cascade_closure:
  assumes w: "wf_build b" and inv: "\<forall>a \<in> set (arts b). failed a \<longrightarrow> received a"
    and r: "reach b i k"
  shows "failed_status (unstable (job_at b k)) (status (job_at b k)) (status (job_at (fail b i) k))
       \<and> (terminating (status (job_at (fail b i) k)) \<or> status (job_at b k) = RUNNING)
       \<and> (\<forall>p \<in> set (products (job_at b k)).
             received (arts (fail b i) ! p) \<and> failed (arts (fail b i) ! p))"
proof -
  let ?b' = "fail b i"
  have t: "touched b ?b' k" by (rule reach_touched[OF w r])
  have f: "frame b ?b'" using fail_cascade(1)[of b i] w by simp
  have k: "k < length (jobs b)" using r by (rule reach_in_graph)
  have s: "failed_status (unstable (job_at b k)) (status (job_at b k)) (status (job_at ?b' k))"
    using t unfolding touched_def by simp
  then have s2: "terminating (status (job_at ?b' k)) \<or> status (job_at b k) = RUNNING"
    unfolding failed_status_def terminating_def
    by (cases "unstable (job_at b k)") auto
  have "received (arts ?b' ! p) \<and> failed (arts ?b' ! p)"
    if "p \<in> set (products (job_at b k))" for p
  proof -
    have p: "p < length (arts b)" using wf_buildD[OF w k] that by simp
    have fp: "failed (arts ?b' ! p)" using t that unfolding touched_def by blast
    have "received (arts ?b' ! p)"
    proof (cases "failed (arts b ! p)")
      case True
      then have "received (arts b ! p)" using inv p by simp
      then show ?thesis using frame_art[OF f p] by simp
    next
      case False
      then show ?thesis using frame_art[OF f p] fp by simp
    qed
    with fp show ?thesis by simp
  qed
  with s s2 show ?thesis by blast
qed

lemma ex_cascade_result:
  "map (\<lambda>j. status (snd j)) (jobs (fail ex_cascade 0)) = [FAILED, WAITING_FOR_DONE, WAITING]"
  "map (\<lambda>a. (received a, failed a)) (arts (fail ex_cascade 0)) =
     [(True, True), (True, True), (True, True), (True, True), (False, False)]"
  by code_simp+

lemma ex_cascade_wf: "wf_build ex_cascade"
  by (simp add: wf_build_def job_at_def ex_cascade_def ex_build_def Job_def less_Suc_eq
      numeral_3_eq_3 numeral_2_eq_2)

lemma ex_cascade_inv: "\<forall>a \<in> set (arts ex_cascade). failed a \<longrightarrow> received a"
  by (simp add: ex_cascade_def ex_build_def ex_art_def)

lemma ex_cascade_reach: "reach ex_cascade 0 1"
proof -
  have a: "reach ex_cascade 0 0"
    by (rule reach_self) (simp add: ex_cascade_def)
  show ?thesis
    by (rule reach_step[OF a, where p = 1])
       (simp_all add: job_at_def ex_cascade_def ex_build_def Job_def ex_art_def consumes_def)
qed

theorem fail_cascade_closure_witness:
  "status (job_at (fail ex_cascade 0) 1) = WAITING_FOR_DONE
   \<and> status (job_at ex_cascade 1) = RUNNING
   \<and> received (arts (fail ex_cascade 0) ! 3) \<and> failed (arts (fail ex_cascade 0) ! 3)"
proof -
  have u: "\<not> unstable (job_at ex_cascade 1)" "status (job_at ex_cascade 1) = RUNNING"
    "products (job_at ex_cascade 1) = [3]"
    by (simp_all add: job_at_def ex_cascade_def ex_build_def Job_def)
  have n: "status (job_at (fail ex_cascade 0) 1) \<noteq> FAILED"
    using ex_cascade_result(1) by (auto simp: job_at_def map_eq_Cons_conv)
  from fail_cascade_closure [OF ex_cascade_wf ex_cascade_inv ex_cascade_reach] u n
  show ?thesis by (simp add: failed_status_def)
qed

text \<open>
  C3, as the claim has it, fails on the example: \<open>package:pq\<close> has the failed
  dependency \<open>d\<close>; after \<^verbatim>\<open>fail\<close> on it, the job \<open>tool:t\<close>, a consumer of its product
  \<open>p\<close>, was running and is \<open>WAITING_FOR_DONE\<close>, which is not terminal; and \<open>tool:u\<close>,
  a consumer of its product \<open>q\<close> that was failed already, has not been visited and is
  still \<open>WAITING\<close>.
\<close>

theorem fail_cascade_counterexample:
  "0 \<in> set (deps (job_at ex_cascade 0)) \<and> failed (arts ex_cascade ! 0)
   \<and> reach ex_cascade 0 1
   \<and> \<not> terminating (status (job_at (fail ex_cascade 0) 1))
   \<and> 2 \<in> set (products (job_at ex_cascade 0)) \<and> consumes ex_cascade 2 2
   \<and> \<not> terminating (status (job_at (fail ex_cascade 0) 2))"
proof -
  have s: "status (job_at (fail ex_cascade 0) 1) = WAITING_FOR_DONE"
    "status (job_at (fail ex_cascade 0) 2) = WAITING"
    using ex_cascade_result(1) by (auto simp: job_at_def map_eq_Cons_conv)
  have c: "0 \<in> set (deps (job_at ex_cascade 0))" "failed (arts ex_cascade ! 0)"
    "2 \<in> set (products (job_at ex_cascade 0))" "consumes ex_cascade 2 2"
    by (simp_all add: job_at_def ex_cascade_def ex_build_def Job_def ex_art_def consumes_def)
  show ?thesis using s c ex_cascade_reach by (simp add: terminating_def)
qed

subsection \<open>Build commands\<close>

text \<open>
  C9. \<^verbatim>\<open>cmd_build\<close> raises the \<^verbatim>\<open>AttributeError\<close> of \<^verbatim>\<open>msgs.BuildMessage\<close> for every
  argument and every coordinator, whatever the \<^verbatim>\<open>unpack\<close> of a message class does and
  whether or not the build directory could be created: the coordinator is as before, so
  no build is created, and \<^verbatim>\<open>command_loop\<close> answers 500, never 409 or 204.
\<close>

theorem cmd_build_raises:
  "cmd_build unpack mk now inst arg = (Inl (AttributeError ''xbbs.messages'' ''BuildMessage''), inst)
   \<and> reply_code (fst (cmd_build unpack mk now inst arg)) = 500
   \<and> ''BuildMessage'' \<notin> set messages_names"
  by (simp add: cmd_build_def msgs_getattr_def messages_names_def reply_code_def)

text \<open>
  The project \<open>demo\<close> with a current build, and without: the answer is 500 both times,
  and the idle project still has no build.
\<close>

theorem cmd_build_raises_witness:
  "reply_code (fst (cmd_build (\<lambda>cls v. Inr \<lparr>bm_project = v, bm_delay = 0, bm_incremental = None\<rparr>)
                      True ''20240102_000000'' ex_inst ''demo'')) = 500
   \<and> reply_code (fst (cmd_build (\<lambda>cls v. Inr \<lparr>bm_project = v, bm_delay = 0, bm_incremental = None\<rparr>)
                      True ''20240102_000000'' ex_idle ''demo'')) = 500
   \<and> map_option current
        (map_of (projects (snd (cmd_build
                    (\<lambda>cls v. Inr \<lparr>bm_project = v, bm_delay = 0, bm_incremental = None\<rparr>)
                    True ''20240102_000000'' ex_idle ''demo''))) ''demo'') = Some None"
proof -
  note a = cmd_build_raises [where unpack = "\<lambda>cls v. Inr \<lparr>bm_project = v, bm_delay = 0, bm_incremental = None\<rparr>"
      and mk = True and now = "''20240102_000000''" and arg = "''demo''"]
  have i: "map_option current (map_of (projects ex_idle) ''demo'') = Some None"
    by (simp add: ex_idle_def ex_inst_def)
  from a [where inst = ex_inst] a [where inst = ex_idle] i
  show ?thesis by (simp add: reply_code_def)
qed


subsection \<open>The solver's dispatch\<close>

lemma JobMessage_call_raises:
  "JobMessage
     [(''project'', v1), (''job'', v2), (''repository'', v3), (''revision'', v4),
      (''output'', v5), (''build_root'', v6), (''needed_tools'', v7), (''needed_pkgs'', v8),
      (''prod_pkgs'', v9), (''prod_tools'', v10), (''prod_files'', v11), (''tool_repo'', v12),
      (''pkg_repo'', v13), (''commits_object'', v14), (''xbps_keys'', v15),
      (''mirror_root'', v16), (''distfile_path'', v17)]
   = Inl (TypeError (Unexpected_keyword ''commits_object''))"
  by (simp add: JobMessage_def attrs_init_def JobMessage_attribs_def)

lemma JobMessage_no_such_attribute:
  "''commits_object'' \<notin> set (map fst JobMessage_attribs)
   \<and> ''mirror_root'' \<notin> set (map fst JobMessage_attribs)
   \<and> ''distfile_path'' \<notin> set (map fst JobMessage_attribs)"
  by (simp add: JobMessage_attribs_def)

text \<open>
  C1. \<^verbatim>\<open>class JobMessage\<close> declares none of the attributes \<^verbatim>\<open>commits_object\<close>,
  \<^verbatim>\<open>mirror_root\<close> and \<^verbatim>\<open>distfile_path\<close>. For a waiting job whose dependencies are all
  received and none failed, the solver's dispatch step constructs no message: it raises,
  and nothing is put on the outgoing queue. The exception is the \<^verbatim>\<open>TypeError\<close> of the
  call \<^verbatim>\<open>msgs.JobMessage(..., commits_object=..., ...)\<close>, raised after the job's status
  has been set to \<open>RUNNING\<close>, unless the project has a signing key whose file cannot be
  read, which raises before.
\<close>

theorem solve_dispatch_raises:
  assumes i: "i < length (jobs (ss_build s))"
    and w: "status (job_at (ss_build s) i) = WAITING"
    and d: "\<forall>x \<in> set (deps (job_at (ss_build s) i)).
              received (arts (ss_build s) ! x) \<and> \<not> failed (arts (ss_build s) ! x)"
  shows "''commits_object'' \<notin> set (map fst JobMessage_attribs)
       \<and> ''mirror_root'' \<notin> set (map fst JobMessage_attribs)
       \<and> ''distfile_path'' \<notin> set (map fst JobMessage_attribs)
       \<and> (\<exists>e s'. solve_job read_file inst projinfo i s = Inl (e, s')
             \<and> ss_queue s' = ss_queue s
             \<and> ((\<exists>fp. fingerprint projinfo = Some fp \<and> fp \<noteq> []
                      \<and> read_file (path_join (base projinfo) (fp @ ''.plist'')) = None
                      \<and> e = OSError (fp @ ''.plist''))
                \<or> (e = TypeError (Unexpected_keyword ''commits_object'')
                    \<and> status (job_at (ss_build s') i) = RUNNING)))"
proof -
  let ?b = "ss_build s"
  let ?j = "snd (jobs ?b ! i)"
  have w': "status ?j = WAITING" using w by (simp add: job_at_def)
  have j1: "(if list_all (\<lambda>x. received (arts ?b ! x)) (products ?j) \<and> status ?j = RUNNING
                  then ?j\<lparr>status := WAITING_FOR_DONE\<rparr> else ?j) = ?j"
    using w' by simp
  have nf: "\<not> list_ex (\<lambda>x. failed (arts (set_job ?b i ?j) ! x)) (deps ?j)"
    using d by (simp add: list_ex_iff job_at_def set_job_def)
  have rc: "list_all (\<lambda>x. received (arts (set_job ?b i ?j) ! x)) (deps ?j)"
    using d by (simp add: list_all_iff job_at_def set_job_def)
  consider (nokey) "fingerprint projinfo = None \<or> fingerprint projinfo = Some []"
    | (unreadable) fp where "fingerprint projinfo = Some fp" "fp \<noteq> []"
        "read_file (path_join (base projinfo) (fp @ ''.plist'')) = None"
    | (readable) fp k where "fingerprint projinfo = Some fp" "fp \<noteq> []"
        "read_file (path_join (base projinfo) (fp @ ''.plist'')) = Some k"
    by (cases "fingerprint projinfo") auto
  then have "\<exists>e s'. solve_job read_file inst projinfo i s = Inl (e, s')
             \<and> ss_queue s' = ss_queue s
             \<and> ((\<exists>fp. fingerprint projinfo = Some fp \<and> fp \<noteq> []
                      \<and> read_file (path_join (base projinfo) (fp @ ''.plist'')) = None
                      \<and> e = OSError (fp @ ''.plist''))
                \<or> (e = TypeError (Unexpected_keyword ''commits_object'')
                    \<and> status (job_at (ss_build s') i) = RUNNING))"
  proof cases
    case nokey
    then show ?thesis
      unfolding solve_job_def Let_def j1
      using w' nf rc i
      by (auto simp: JobMessage_call_raises job_at_def set_job_def)
  next
    case unreadable
    then show ?thesis
      unfolding solve_job_def Let_def j1
      using w' nf rc i
      by (simp add: job_at_def set_job_def)
  next
    case readable
    then show ?thesis
      unfolding solve_job_def Let_def j1
      using w' nf rc i
      by (simp add: JobMessage_call_raises job_at_def set_job_def)
  qed
  with JobMessage_no_such_attribute show ?thesis by (intro conjI) simp_all
qed

theorem solve_dispatch_raises_witness:
  "\<exists>s'. solve_job (\<lambda>p. None) ex_inst ex_project 0 ex_ready
          = Inl (TypeError (Unexpected_keyword ''commits_object''), s')
      \<and> ss_queue s' = []
      \<and> status (job_at (ss_build s') 0) = RUNNING"
proof -
  have i: "0 < length (jobs (ss_build ex_ready))"
    by (simp add: ex_ready_def)
  have w: "status (job_at (ss_build ex_ready) 0) = WAITING"
    by (simp add: ex_ready_def job_at_def Job_def)
  have d: "\<forall>x \<in> set (deps (job_at (ss_build ex_ready) 0)).
              received (arts (ss_build ex_ready) ! x) \<and> \<not> failed (arts (ss_build ex_ready) ! x)"
    by (simp add: ex_ready_def job_at_def Job_def)
  have f: "fingerprint ex_project = None" by (simp add: ex_project_def)
  have q: "ss_queue ex_ready = []" by (simp add: ex_ready_def)
  from solve_dispatch_raises [OF i w d, where read_file = "\<lambda>p. None" and inst = ex_inst
      and projinfo = ex_project]
  obtain e s' where "solve_job (\<lambda>p. None) ex_inst ex_project 0 ex_ready = Inl (e, s')"
    "ss_queue s' = ss_queue ex_ready"
    "e = TypeError (Unexpected_keyword ''commits_object'')
                    \<and> status (job_at (ss_build s') 0) = RUNNING"
    using f by auto
  then show ?thesis using q by auto
qed


subsection \<open>The build driver\<close>

definition mirror_cmd :: "string \<Rightarrow> string list" where
  "mirror_cmd projdir = [''xbstrap-mirror'', ''-S'', projdir, ''update'', ''--keep-going'']"

text \<open>What holds of the driver's state as long as the mirror update has not been reached.\<close>

definition before_mirror :: "string \<Rightarrow> run_state \<Rightarrow> bool" where
  "before_mirror projdir s \<longleftrightarrow>
     mirror_cmd projdir \<notin> set (rs_cmds s) \<and> \<not> rs_success s
     \<and> set (rs_states s) \<subseteq> {FETCH, SETUP}"

definition keeps :: "(run_state \<Rightarrow> bool) \<Rightarrow> step \<Rightarrow> bool" where
  "keeps P f \<longleftrightarrow> (\<forall>s. P s \<longrightarrow> (case f s of Inl es \<Rightarrow> P (snd es) | Inr s' \<Rightarrow> P s'))"

lemma steps_keeps:
  assumes "\<forall>f \<in> set fs. keeps P f" and "P s"
  shows "case steps fs s of Inl es \<Rightarrow> P (snd es) | Inr s' \<Rightarrow> P s'"
  using assms
proof (induction fs arbitrary: s)
  case Nil
  then show ?case by simp
next
  case (Cons f fs)
  from Cons.prems have k: "keeps P f" by simp
  from k Cons.prems(2) have kf: "case f s of Inl es \<Rightarrow> P (snd es) | Inr s' \<Rightarrow> P s'"
    unfolding keeps_def by blast
  show ?case
  proof (cases "f s")
    case (Inl es)
    then show ?thesis using kf by simp
  next
    case (Inr s1)
    then have "P s1" using kf by simp
    moreover have "\<forall>f \<in> set fs. keeps P f" using Cons.prems(1) by simp
    ultimately have "case steps fs s1 of Inl es \<Rightarrow> P (snd es) | Inr s' \<Rightarrow> P s'"
      by (rule Cons.IH[rotated])
    then show ?thesis using Inr by simp
  qed
qed

lemma steps_append:
  "steps (fs @ gs) s = (case steps fs s of Inl e \<Rightarrow> Inl e | Inr s1 \<Rightarrow> steps gs s1)"
proof (induction fs arbitrary: s)
  case Nil
  then show ?case by simp
next
  case (Cons f fs)
  then show ?case by (cases "f s") simp_all
qed

lemma getattr_UPDATING_MIRRORS:
  "BuildState_getattr ''UPDATING_MIRRORS'' = Inl (AttributeError ''BuildState'' ''UPDATING_MIRRORS'')"
  by (simp add: BuildState_getattr_def BuildState_members_def)

lemma set_state_UPDATING_MIRRORS:
  "set_state ''UPDATING_MIRRORS'' s = Inl (AttributeError ''BuildState'' ''UPDATING_MIRRORS'', s)"
  by (simp add: set_state_def getattr_UPDATING_MIRRORS)

lemma getattr_FETCH: "BuildState_getattr ''FETCH'' = Inr FETCH"
  by (simp add: BuildState_getattr_def BuildState_members_def)

lemma getattr_SETUP: "BuildState_getattr ''SETUP'' = Inr SETUP"
  by (simp add: BuildState_getattr_def BuildState_members_def)

lemma keeps_set_state_FETCH: "keeps (before_mirror projdir) (set_state ''FETCH'')"
  unfolding keeps_def set_state_def getattr_FETCH
  by (simp add: before_mirror_def)

lemma keeps_set_state_SETUP: "keeps (before_mirror projdir) (set_state ''SETUP'')"
  unfolding keeps_def set_state_def getattr_SETUP
  by (simp add: before_mirror_def)

lemma keeps_io: "keeps (before_mirror projdir) (io io_ok n)"
  by (simp add: keeps_def before_mirror_def io_def)

lemma keeps_call:
  "c \<noteq> mirror_cmd projdir \<Longrightarrow> keeps (before_mirror projdir) (call ok c)"
  unfolding keeps_def call_def by (simp add: before_mirror_def)

lemma setup_stops_at_mirror:
  assumes m: "truthy (mirror_root project)" and p: "before_mirror projdir s"
  shows "\<exists>e s'. steps (run_project_setup ok io_ok projdir project @ [rest]) s = Inl (e, s')
               \<and> before_mirror projdir s'"
proof -
  define pre where "pre = [io io_ok ''lock_file'',
      io io_ok ''TemporaryDirectory'',
      io io_ok ''symlink'',
      set_state ''FETCH'',
      call ok [''git'', ''init''],
      call ok [''git'', ''remote'', ''add'', ''origin'', git project],
      call ok [''git'', ''fetch'', ''origin''],
      call ok [''git'', ''checkout'', ''--detach'', ''origin/'' @ default_branch project],
      call ok [''git'', ''rev-parse'', ''HEAD''],
      set_state ''SETUP'',
      io io_ok ''TemporaryDirectory'',
      io io_ok ''merge_tree_into'',
      call ok [''xbstrap'', ''init'', projdir]]"
  define post where "post = [io io_ok ''makedirs'', call ok (mirror_cmd projdir), rest]"
  have split: "run_project_setup ok io_ok projdir project @ [rest]
               = pre @ set_state ''UPDATING_MIRRORS'' # post"
    using m by (simp add: run_project_setup_def mirror_cmd_def pre_def post_def)
  have k: "\<forall>f \<in> set pre. keeps (before_mirror projdir) f"
    unfolding pre_def
    by (simp add: keeps_set_state_FETCH keeps_set_state_SETUP keeps_call keeps_io mirror_cmd_def)
  note pre = steps_keeps[OF k p]
  show ?thesis
  proof (cases "steps pre s")
    case (Inl es)
    obtain e s' where es: "es = (e, s')" by (cases es) auto
    have "steps (pre @ set_state ''UPDATING_MIRRORS'' # post) s = Inl (e, s')"
      using Inl es by (simp add: steps_append)
    moreover have "before_mirror projdir s'" using pre Inl es by simp
    ultimately show ?thesis unfolding split by blast
  next
    case (Inr s1)
    have "steps (pre @ set_state ''UPDATING_MIRRORS'' # post) s
          = Inl (AttributeError ''BuildState'' ''UPDATING_MIRRORS'', s1)"
      using Inr by (simp add: steps_append set_state_UPDATING_MIRRORS)
    moreover have "before_mirror projdir s1" using pre Inr by simp
    ultimately show ?thesis unfolding split by blast
  qed
qed

lemma BuildState_UNIV:
  "(UNIV :: BuildState set) = {SCHEDULED, FETCH, SETUP, CALCULATING, SETUP_REPOS, RUNNING_state, DONE}"
proof -
  have "x \<in> {SCHEDULED, FETCH, SETUP, CALCULATING, SETUP_REPOS, RUNNING_state, DONE}"
    for x :: BuildState
    by (cases x) simp_all
  then show ?thesis by blast
qed

text \<open>
  C5. \<^verbatim>\<open>class BuildState\<close> has the seven members \<open>SCHEDULED\<close>, \<open>FETCH\<close>, \<open>SETUP\<close>,
  \<open>CALCULATING\<close>, \<open>SETUP_REPOS\<close>, \<open>RUNNING\<close> and \<open>DONE\<close>, and
  \<^verbatim>\<open>msgs.BuildState.UPDATING_MIRRORS\<close> is an \<^verbatim>\<open>AttributeError\<close>. For a project with
  \<^verbatim>\<open>mirror_root\<close> set, whatever the commands and the file system do, \<^verbatim>\<open>run_project\<close>
  never runs \<^verbatim>\<open>xbstrap-mirror\<close> and never gets past the state \<open>SETUP\<close>: the build is
  detached from the project and ends in the state \<open>DONE\<close> with \<^verbatim>\<open>success = false\<close>.
\<close>

theorem run_project_mirror_raises:
  assumes c: "current project = Some b0" and m: "truthy (mirror_root project)"
  shows "(UNIV :: BuildState set)
           = {SCHEDULED, FETCH, SETUP, CALCULATING, SETUP_REPOS, RUNNING_state, DONE}
       \<and> BuildState_getattr ''UPDATING_MIRRORS''
           = Inl (AttributeError ''BuildState'' ''UPDATING_MIRRORS'')
       \<and> (\<exists>p s. run_project ok io_ok projdir rest project incr = Inr (p, s)
              \<and> current p = None
              \<and> state (rs_build s) = DONE
              \<and> st_success (the (coordfile (rs_build s))) = Some False
              \<and> mirror_cmd projdir \<notin> set (rs_cmds s)
              \<and> set (rs_states s) \<subseteq> {FETCH, SETUP})"
proof -
  let ?s0 = "\<lparr>rs_build = b0\<lparr>incremental := (case incr of None \<Rightarrow> p_incremental project | Some v \<Rightarrow> v)\<rparr>,
              rs_cmds = [], rs_states = [], rs_success = False\<rparr>"
  have p0: "before_mirror projdir ?s0" by (simp add: before_mirror_def)
  from setup_stops_at_mirror[OF m p0, where ok = ok and io_ok = io_ok and rest = rest] obtain e s' where
    st: "steps (run_project_setup ok io_ok projdir project @ [rest]) ?s0 = Inl (e, s')"
    and b: "before_mirror projdir s'" by blast
  let ?s = "s'\<lparr>rs_build := store_status (Some (rs_success s')) ((rs_build s')\<lparr>state := DONE\<rparr>)\<rparr>"
  have r: "run_project ok io_ok projdir rest project incr = Inr (project\<lparr>current := None\<rparr>, ?s)"
    using c st by (simp add: run_project_def Let_def)
  have "current (project\<lparr>current := None\<rparr>) = None \<and> state (rs_build ?s) = DONE
        \<and> st_success (the (coordfile (rs_build ?s))) = Some False
        \<and> mirror_cmd projdir \<notin> set (rs_cmds ?s)
        \<and> set (rs_states ?s) \<subseteq> {FETCH, SETUP}"
    using b by (simp add: before_mirror_def store_status_def)
  then have ex: "\<exists>p s. run_project ok io_ok projdir rest project incr = Inr (p, s)
              \<and> current p = None
              \<and> state (rs_build s) = DONE
              \<and> st_success (the (coordfile (rs_build s))) = Some False
              \<and> mirror_cmd projdir \<notin> set (rs_cmds s)
              \<and> set (rs_states s) \<subseteq> {FETCH, SETUP}"
    using r by (intro exI[of _ "project\<lparr>current := None\<rparr>"] exI[of _ ?s]) (simp only: simp_thms)
  show ?thesis
    by (intro conjI BuildState_UNIV getattr_UPDATING_MIRRORS ex)
qed

theorem run_project_mirror_raises_witness:
  "\<exists>p s. run_project (\<lambda>c. True) (\<lambda>n. True) ''/base/_tmp/co'' Inr ex_mirrored None = Inr (p, s)
       \<and> state (rs_build s) = DONE
       \<and> st_success (the (coordfile (rs_build s))) = Some False
       \<and> mirror_cmd ''/base/_tmp/co'' \<notin> set (rs_cmds s)"
proof -
  have c: "current ex_mirrored = Some (ex_build\<lparr>jobs := [], state := SCHEDULED\<rparr>)"
    by (simp add: ex_mirrored_def)
  have m: "truthy (mirror_root ex_mirrored)"
    by (simp add: ex_mirrored_def truthy_def)
  note t = run_project_mirror_raises [OF c m, where ok = "\<lambda>c. True" and io_ok = "\<lambda>n. True"
      and projdir = "''/base/_tmp/co''" and rest = Inr and incr = None]
  from conjunct2[OF conjunct2[OF t]] obtain p s where
    "run_project (\<lambda>c. True) (\<lambda>n. True) ''/base/_tmp/co'' Inr ex_mirrored None = Inr (p, s)"
    "state (rs_build s) = DONE" "st_success (the (coordfile (rs_build s))) = Some False"
    "mirror_cmd ''/base/_tmp/co'' \<notin> set (rs_cmds s)"
    by (elim exE conjE)
  then show ?thesis by (intro exI conjI)
qed


end
